theory Spec2Isabelle
  imports
    Main
    "HOL-Library.Sublist"
    "HOL-Library.AList"
    "HOL-Library.Char_ord"
    "HOL-Library.List_Lexorder"
    "HOL-Library.Product_Lexorder"
begin

section \<open>Strings\<close>

text \<open>
  Python strings are modelled as \<open>string\<close>; a character of the model stands for one
  character of the Python string, and the order on strings is the lexicographic order on
  their characters, as Python's \<open><\<close> on \<open>str\<close>.
\<close>

text \<open>\<open>sub in s\<close>: \<open>sub\<close> occurs in \<open>s\<close> as a contiguous run.\<close>

fun str_contains :: "string \<Rightarrow> string \<Rightarrow> bool" where
  "str_contains sub [] = (sub = [])"
| "str_contains sub (c # cs) = (prefix sub (c # cs) \<or> str_contains sub cs)"

text \<open>
  \<open>s.split(sep)\<close> for a separator of one character: the pieces between the separators,
  empty pieces kept.
\<close>

fun str_split :: "char \<Rightarrow> string \<Rightarrow> string list" where
  "str_split sep [] = [[]]"
| "str_split sep (c # cs) =
     (if c = sep then [] # str_split sep cs
      else (case str_split sep cs of
              [] \<Rightarrow> [[c]]
            | p # ps \<Rightarrow> (c # p) # ps))"

abbreviation split_dot :: "string \<Rightarrow> string list" where
  "split_dot s \<equiv> str_split (CHR ''.'') s"

text \<open>\<open>sep.join(xs)\<close> for a list of strings.\<close>

fun str_join :: "string \<Rightarrow> string list \<Rightarrow> string" where
  "str_join sep [] = []"
| "str_join sep [x] = x"
| "str_join sep (x # y # ys) = x @ sep @ str_join sep (y # ys)"

text \<open>Iterating over a string yields its characters as one-character strings.\<close>

definition chars_of :: "string \<Rightarrow> string list" where
  "chars_of s = map (\<lambda>c. [c]) s"

text \<open>\<open>s.count(".")\<close>.\<close>

definition count_dots :: "string \<Rightarrow> nat" where
  "count_dots s = count_list s (CHR ''.'')"

section \<open>The loader: \<open>load_modules\<close>\<close>

text \<open>
  \<open>pdoc.doc.Module.from_name\<close> is a collaborator outside the repository. It either returns
  a module or raises. The handler of \<open>load_modules\<close> is \<open>except RuntimeError as exc\<close>, so what
  matters of a raised exception is whether it is a \<open>RuntimeError\<close> (then its message
  \<open>str(exc)\<close> is inspected) or anything else (then the handler does not apply). The
  outcome of an import is taken to depend on the name alone.
\<close>

datatype 'e raised = RuntimeError string | OtherException 'e

type_synonym ('e, 'm) importer = "string \<Rightarrow> 'e raised + 'm"

record 'm load_state =
  loaded :: "(string \<times> 'm) list"
  invalid :: "string set"

text \<open>
  Lines 162-163:
  \<^verbatim>\<open>parts = name.split(".")\<close>
  \<^verbatim>\<open>invalid |= {".".join(name[:i]) for i in range(1, len(parts))}\<close>
  The slice is taken of \<open>name\<close>, a string, so \<open>join\<close> runs over the first \<open>i\<close> characters.
\<close>

definition invalid_prefixes :: "string \<Rightarrow> string set" where
  "invalid_prefixes name =
     set (map (\<lambda>i. str_join ''.'' (chars_of (take i name)))
              [1 ..< length (split_dot name)])"

text \<open>
  One iteration of the loop of lines 154-163. A dictionary keeps the position of a key
  that is assigned again and appends a new key, which is \<open>AList.update\<close>.
\<close>

definition load_step ::
  "('e, 'm) importer \<Rightarrow> 'm load_state \<Rightarrow> string \<Rightarrow> 'e + 'm load_state" where
  "load_step from_name st name =
     (if name \<in> invalid st then Inr st
      else (case from_name name of
              Inr m \<Rightarrow> Inr (st\<lparr>loaded := AList.update name m (loaded st)\<rparr>)
            | Inl (RuntimeError msg) \<Rightarrow>
                (if str_contains ''Error importing'' msg
                 then Inr (st\<lparr>invalid := invalid st \<union> invalid_prefixes name\<rparr>)
                 else Inr st)
            | Inl (OtherException e) \<Rightarrow> Inl e))"

fun load_loop ::
  "('e, 'm) importer \<Rightarrow> 'm load_state \<Rightarrow> string list \<Rightarrow> 'e + 'm load_state" where
  "load_loop from_name st [] = Inr st"
| "load_loop from_name st (name # names) =
     (case load_step from_name st name of
        Inl e \<Rightarrow> Inl e
      | Inr st' \<Rightarrow> load_loop from_name st' names)"

text \<open>The sort key of line 166: \<open>(int(bool(name.count("."))), name)\<close>.\<close>

definition sort_rank :: "string \<Rightarrow> nat \<times> string" where
  "sort_rank name = (if count_dots name \<noteq> 0 then 1 else 0, name)"

text \<open>Lines 164-168: sort the items (Python's sort is stable), then filter.\<close>

definition final_mapping :: "'m load_state \<Rightarrow> (string \<times> 'm) list" where
  "final_mapping st =
     filter (\<lambda>(name, m). name \<notin> invalid st)
            (sort_key (\<lambda>x. sort_rank (fst x)) (loaded st))"

text \<open>
  \<open>load_modules\<close>, with the candidate names that \<open>pdoc.extract.walk_specs\<close> yields taken as
  the argument.
\<close>

definition load_modules ::
  "('e, 'm) importer \<Rightarrow> string list \<Rightarrow> 'e + (string \<times> 'm) list" where
  "load_modules from_name candidates =
     (case load_loop from_name \<lparr>loaded = [], invalid = {}\<rparr> candidates of
        Inl e \<Rightarrow> Inl e
      | Inr st \<Rightarrow> Inr (final_mapping st))"

section \<open>Paths and files\<close>

text \<open>
  \<open>s.replace(old, new)\<close>: the occurrences of \<open>old\<close> are replaced from left to right, without
  overlap; an empty \<open>old\<close> matches before every character and at the end.
\<close>

function str_replace :: "string \<Rightarrow> string \<Rightarrow> string \<Rightarrow> string" where
  "str_replace old new [] = (if old = [] then new else [])"
| "str_replace old new (c # cs) =
     (if old = [] then new @ c # str_replace old new cs
      else if prefix old (c # cs)
      then new @ str_replace old new (drop (length old) (c # cs))
      else c # str_replace old new cs)"
  by pat_completeness auto
termination
  by (relation "measure (\<lambda>(old, new, s). length s)") auto

text \<open>
  A \<open>pathlib\<close> path on a POSIX system: whether it starts at the root, and its components.
  \<open>Path(s)\<close> splits \<open>s\<close> at the separators and drops the empty components and the
  components \<open>.\<close>.
\<close>

datatype path = Path (absolute: bool) (parts: "string list")

definition path_of :: "string \<Rightarrow> path" where
  "path_of s =
     Path (prefix ''/'' s) (filter (\<lambda>c. c \<noteq> [] \<and> c \<noteq> ''.'') (str_split (CHR ''/'') s))"

text \<open>\<open>p / q\<close>.\<close>

definition path_join :: "path \<Rightarrow> path \<Rightarrow> path" where
  "path_join p q = (if absolute q then q else Path (absolute p) (parts p @ parts q))"

text \<open>\<open>p.parent\<close>; the parent of a path without components is the path.\<close>

definition parent :: "path \<Rightarrow> path" where
  "parent p = Path (absolute p) (butlast (parts p))"

datatype node = Dir | File string

type_synonym fs = "path \<Rightarrow> node option"

datatype error =
  KeyError | FileNotFoundError | FileExistsError | NotADirectoryError | IsADirectoryError
  | CollaboratorError string

text \<open>The path without components (the root, or the working directory) is a directory.\<close>

definition lookup :: "fs \<Rightarrow> path \<Rightarrow> node option" where
  "lookup fs p = (if parts p = [] then Some Dir else fs p)"

definition exists :: "fs \<Rightarrow> path \<Rightarrow> bool" where
  "exists fs p = (lookup fs p \<noteq> None)"

definition is_dir :: "fs \<Rightarrow> path \<Rightarrow> bool" where
  "is_dir fs p = (lookup fs p = Some Dir)"

text \<open>\<open>os.mkdir(p)\<close>.\<close>

definition os_mkdir :: "path \<Rightarrow> fs \<Rightarrow> error + fs" where
  "os_mkdir p fs =
     (case lookup fs (parent p) of
        None \<Rightarrow> Inl FileNotFoundError
      | Some (File _) \<Rightarrow> Inl NotADirectoryError
      | Some Dir \<Rightarrow>
          (case lookup fs p of
             Some _ \<Rightarrow> Inl FileExistsError
           | None \<Rightarrow> Inr (fs(p \<mapsto> Dir))))"

text \<open>
  \<open>p.mkdir(parents=True, exist_ok=True)\<close>, as \<open>pathlib\<close> defines it: try \<open>os.mkdir\<close>; on
  \<open>FileNotFoundError\<close> make the parent in the same way and try once more; any other
  \<open>OSError\<close> is ignored when the path is a directory.
\<close>

function mkdir_parents :: "path \<Rightarrow> fs \<Rightarrow> error + fs" where
  "mkdir_parents p fs =
     (case os_mkdir p fs of
        Inr fs' \<Rightarrow> Inr fs'
      | Inl e \<Rightarrow>
          if e = FileNotFoundError then
            (if parent p = p then Inl FileNotFoundError
             else (case mkdir_parents (parent p) fs of
                     Inl e' \<Rightarrow> Inl e'
                   | Inr fs1 \<Rightarrow>
                       (case os_mkdir p fs1 of
                          Inr fs2 \<Rightarrow> Inr fs2
                        | Inl e' \<Rightarrow>
                            if e' \<noteq> FileNotFoundError \<and> is_dir fs1 p then Inr fs1
                            else Inl e')))
          else if is_dir fs p then Inr fs else Inl e)"
  by pat_completeness auto
termination
proof (relation "measure (\<lambda>(p, fs). length (parts p))")
  show "wf (measure (\<lambda>(p, fs). length (parts p)))" by simp
next
  fix p :: path and fs :: fs and e :: error
  assume "parent p \<noteq> p"
  then have "parts p \<noteq> []"
    by (cases p) (auto simp: parent_def)
  then show "((parent p, fs), (p, fs)) \<in> measure (\<lambda>(p, fs). length (parts p))"
    by (simp add: parent_def)
qed

declare mkdir_parents.simps [simp del]

text \<open>
  Opening a file for writing and writing \<open>s\<close> (\<open>write_text\<close>, \<open>write_bytes\<close>,
  \<open>open("w")\<close>), and opening a file for reading.
\<close>

definition write_file :: "path \<Rightarrow> string \<Rightarrow> fs \<Rightarrow> error + fs" where
  "write_file p s fs =
     (case lookup fs (parent p) of
        None \<Rightarrow> Inl FileNotFoundError
      | Some (File _) \<Rightarrow> Inl NotADirectoryError
      | Some Dir \<Rightarrow>
          (case lookup fs p of
             Some Dir \<Rightarrow> Inl IsADirectoryError
           | _ \<Rightarrow> Inr (fs(p \<mapsto> File s))))"

definition read_file :: "path \<Rightarrow> fs \<Rightarrow> error + string" where
  "read_file p fs =
     (case lookup fs p of
        None \<Rightarrow> Inl FileNotFoundError
      | Some Dir \<Rightarrow> Inl IsADirectoryError
      | Some (File s) \<Rightarrow> Inr s)"

text \<open>
  Reading in text mode translates \<open>\r\n\<close> and \<open>\r\<close> to \<open>\n\<close> (universal newlines); writing
  in text mode on a POSIX system writes the characters as they are.
\<close>

fun universal_newlines :: "string \<Rightarrow> string" where
  "universal_newlines [] = []"
| "universal_newlines [c] = [if c = CHR 0x0D then CHR 0x0A else c]"
| "universal_newlines (c # d # ds) =
     (if c = CHR 0x0D \<and> d = CHR 0x0A then CHR 0x0A # universal_newlines ds
      else if c = CHR 0x0D then CHR 0x0A # universal_newlines (d # ds)
      else c # universal_newlines (d # ds))"

definition write_text :: "path \<Rightarrow> string \<Rightarrow> fs \<Rightarrow> error + fs" where
  "write_text p s fs = write_file p s fs"

definition read_text :: "path \<Rightarrow> fs \<Rightarrow> error + string" where
  "read_text p fs =
     (case read_file p fs of Inl e \<Rightarrow> Inl e | Inr s \<Rightarrow> Inr (universal_newlines s))"

section \<open>The cache: class \<open>Cache\<close>\<close>

text \<open>
  The state of a run: the files, and a record of what the cache did, in order. The record
  is not in the source; it makes the calls of \<open>compute\<close>, \<open>load\<close> and \<open>save\<close> visible, each
  with the path of the entry, and the rendering of the template context in
  \<open>CacheIndex.__init__\<close>.
\<close>

datatype event = Compute path | Load path | Save path | RenderContext

record world =
  files :: fs
  trace :: "event list"

text \<open>
  A cache object: its root \<open>self.path\<close> and the four methods that a subclass defines.
\<close>

record ('k, 'v) cache =
  cache_path :: path
  cache_key :: "'k \<Rightarrow> path"
  cache_save :: "path \<Rightarrow> 'v \<Rightarrow> fs \<Rightarrow> error + fs"
  cache_load :: "path \<Rightarrow> fs \<Rightarrow> error + 'v"
  cache_compute :: "'k \<Rightarrow> error + 'v"

text \<open>\<open>Cache.__init__\<close> (lines 21-23).\<close>

definition Cache_init :: "path \<Rightarrow> world \<Rightarrow> error + world" where
  "Cache_init p w =
     (case mkdir_parents p (files w) of
        Inl e \<Rightarrow> Inl e
      | Inr fs \<Rightarrow> Inr (w\<lparr>files := fs\<rparr>))"

text \<open>\<open>self.path / self.key(key)\<close>.\<close>

definition entry_path :: "('k, 'v) cache \<Rightarrow> 'k \<Rightarrow> path" where
  "entry_path c k = path_join (cache_path c) (cache_key c k)"

text \<open>\<open>__getitem__\<close> (lines 40-44).\<close>

definition getitem :: "('k, 'v) cache \<Rightarrow> 'k \<Rightarrow> world \<Rightarrow> error + ('v \<times> world)" where
  "getitem c k w =
     (let p = entry_path c k in
      if \<not> exists (files w) p then Inl KeyError
      else (case cache_load c p (files w) of
              Inl e \<Rightarrow> Inl e
            | Inr v \<Rightarrow> Inr (v, w\<lparr>trace := trace w @ [Load p]\<rparr>)))"

text \<open>\<open>__setitem__\<close> (lines 46-49).\<close>

definition setitem :: "('k, 'v) cache \<Rightarrow> 'k \<Rightarrow> 'v \<Rightarrow> world \<Rightarrow> error + world" where
  "setitem c k v w =
     (let p = entry_path c k in
      case mkdir_parents (parent p) (files w) of
        Inl e \<Rightarrow> Inl e
      | Inr fs1 \<Rightarrow>
          (case cache_save c p v fs1 of
             Inl e \<Rightarrow> Inl e
           | Inr fs2 \<Rightarrow> Inr (w\<lparr>files := fs2, trace := trace w @ [Save p]\<rparr>)))"

text \<open>\<open>__contains__\<close> (lines 56-58).\<close>

definition contains :: "('k, 'v) cache \<Rightarrow> 'k \<Rightarrow> world \<Rightarrow> bool" where
  "contains c k w = exists (files w) (entry_path c k)"

text \<open>A call of the method \<open>compute\<close>.\<close>

definition compute :: "('k, 'v) cache \<Rightarrow> 'k \<Rightarrow> world \<Rightarrow> error + ('v \<times> world)" where
  "compute c k w =
     (case cache_compute c k of
        Inl e \<Rightarrow> Inl e
      | Inr v \<Rightarrow> Inr (v, w\<lparr>trace := trace w @ [Compute (entry_path c k)]\<rparr>))"

text \<open>\<open>get\<close> (lines 32-38): only \<open>KeyError\<close> is caught.\<close>

definition get :: "('k, 'v) cache \<Rightarrow> 'k \<Rightarrow> world \<Rightarrow> error + ('v \<times> world)" where
  "get c k w =
     (case getitem c k w of
        Inr r \<Rightarrow> Inr r
      | Inl e \<Rightarrow>
          if e = KeyError then
            (case compute c k w of
               Inl e' \<Rightarrow> Inl e'
             | Inr (v, w1) \<Rightarrow>
                 (case setitem c k v w1 of
                    Inl e' \<Rightarrow> Inl e'
                  | Inr w2 \<Rightarrow> Inr (v, w2)))
          else Inl e)"

section \<open>The two caches and the rendering\<close>

record module =
  fullname :: string

text \<open>
  The collaborators of \<open>pdoc\<close> and \<open>json\<close>, outside the repository, as parameters:
  \<open>pdoc.render.html_module\<close>, \<open>pdoc.render.html_index\<close>, \<open>pdoc.search.make_index\<close> on one
  module, the compilation of the index into \<open>search.js\<close> (lines 122-126), the flag
  \<open>pdoc.render.env.globals["search"]\<close>, and \<open>json.dump\<close> and \<open>json.load\<close> on a list of entries
  of type \<open>'d\<close>.
\<close>

record 'd pdoc =
  html_module :: "module \<Rightarrow> (string \<times> module) list \<Rightarrow> error + string"
  html_index :: "(string \<times> module) list \<Rightarrow> error + string"
  make_index :: "string \<times> module \<Rightarrow> error + 'd list"
  search_js :: "'d list \<Rightarrow> error + string"
  search_enabled :: bool
  json_dump :: "'d list \<Rightarrow> string"
  json_load :: "string \<Rightarrow> error + 'd list"

text \<open>\<open>CacheHTML\<close> (lines 61-76).\<close>

definition CacheHTML_key :: "module \<Rightarrow> path" where
  "CacheHTML_key key = path_of (str_replace ''.'' ''/'' (fullname key) @ ''.html'')"

definition CacheHTML :: "'d pdoc \<Rightarrow> path \<Rightarrow> (string \<times> module) list \<Rightarrow> (module, string) cache" where
  "CacheHTML pd p modules =
     \<lparr>cache_path = p,
      cache_key = CacheHTML_key,
      cache_save = write_text,
      cache_load = read_text,
      cache_compute = (\<lambda>key. html_module pd key modules)\<rparr>"

text \<open>\<open>CacheIndex\<close> (lines 79-109).\<close>

definition CacheIndex_key :: "string \<times> module \<Rightarrow> path" where
  "CacheIndex_key key = path_of (str_replace ''.'' ''/'' (fst key) @ ''.json'')"

definition CacheIndex ::
  "'d pdoc \<Rightarrow> path \<Rightarrow> (string \<times> module) list \<Rightarrow> (string \<times> module, 'd list) cache" where
  "CacheIndex pd p modules =
     \<lparr>cache_path = p,
      cache_key = CacheIndex_key,
      cache_save = (\<lambda>q v. write_file q (json_dump pd v)),
      cache_load = (\<lambda>q fs. case read_text q fs of Inl e \<Rightarrow> Inl e | Inr s \<Rightarrow> json_load pd s),
      cache_compute = make_index pd\<rparr>"

definition CacheIndex_init :: "path \<Rightarrow> world \<Rightarrow> error + world" where
  "CacheIndex_init p w =
     (case Cache_init p w of
        Inl e \<Rightarrow> Inl e
      | Inr w1 \<Rightarrow> Inr (w1\<lparr>trace := trace w1 @ [RenderContext]\<rparr>))"

text \<open>The comprehension of lines 118-120.\<close>

fun index_loop ::
  "(string \<times> module, 'd list) cache \<Rightarrow> (string \<times> module) list \<Rightarrow> world
     \<Rightarrow> error + ('d list \<times> world)" where
  "index_loop c [] w = Inr ([], w)"
| "index_loop c (item # items) w =
     (case get c item w of
        Inl e \<Rightarrow> Inl e
      | Inr (entries, w1) \<Rightarrow>
          (case index_loop c items w1 of
             Inl e \<Rightarrow> Inl e
           | Inr (others, w2) \<Rightarrow> Inr (entries @ others, w2)))"

text \<open>\<open>search_index\<close> (lines 112-126).\<close>

definition search_index ::
  "'d pdoc \<Rightarrow> (string \<times> module) list \<Rightarrow> path \<Rightarrow> world \<Rightarrow> error + (string \<times> world)" where
  "search_index pd modules cache_root w =
     (case CacheIndex_init cache_root w of
        Inl e \<Rightarrow> Inl e
      | Inr w1 \<Rightarrow>
          if \<not> search_enabled pd then Inr ([], w1)
          else (case index_loop (CacheIndex pd cache_root modules) modules w1 of
                  Inl e \<Rightarrow> Inl e
                | Inr (index, w2) \<Rightarrow>
                    (case search_js pd index of
                       Inl e \<Rightarrow> Inl e
                     | Inr js \<Rightarrow> Inr (js, w2))))"

text \<open>The loop of lines 134-137.\<close>

fun render_loop ::
  "(module, string) cache \<Rightarrow> (string \<times> module) list \<Rightarrow> world \<Rightarrow> error + world" where
  "render_loop c [] w = Inr w"
| "render_loop c ((name, m) # items) w =
     (if \<not> contains c m w then
        (case compute c m w of
           Inl e \<Rightarrow> Inl e
         | Inr (v, w1) \<Rightarrow>
             (case setitem c m v w1 of
                Inl e \<Rightarrow> Inl e
              | Inr w2 \<Rightarrow> render_loop c items w2))
      else render_loop c items w)"

text \<open>Writing an aggregate output when its content is not empty (lines 140-141, 144-145).\<close>

definition write_if_nonempty :: "path \<Rightarrow> string \<Rightarrow> world \<Rightarrow> error + world" where
  "write_if_nonempty p s w =
     (if s \<noteq> [] then
        (case write_file p s (files w) of
           Inl e \<Rightarrow> Inl e
         | Inr fs \<Rightarrow> Inr (w\<lparr>files := fs\<rparr>))
      else Inr w)"

text \<open>\<open>render_modules\<close> (lines 129-145).\<close>

definition render_modules ::
  "'d pdoc \<Rightarrow> (string \<times> module) list \<Rightarrow> path \<Rightarrow> world \<Rightarrow> error + world" where
  "render_modules pd modules output_directory w =
     (case Cache_init output_directory w of
        Inl e \<Rightarrow> Inl e
      | Inr w1 \<Rightarrow>
     (case render_loop (CacheHTML pd output_directory modules) modules w1 of
        Inl e \<Rightarrow> Inl e
      | Inr w2 \<Rightarrow>
     (case html_index pd modules of
        Inl e \<Rightarrow> Inl e
      | Inr index \<Rightarrow>
     (case write_if_nonempty (path_join output_directory (path_of ''index.html'')) index w2 of
        Inl e \<Rightarrow> Inl e
      | Inr w3 \<Rightarrow>
     (case search_index pd modules
             (path_join (path_join output_directory (path_of ''.cache'')) (path_of ''search'')) w3 of
        Inl e \<Rightarrow> Inl e
      | Inr (search, w4) \<Rightarrow>
          write_if_nonempty (path_join output_directory (path_of ''search.js'')) search w4)))))"

section \<open>Notions of the specification, and concrete inputs\<close>

text \<open>
  The specification's ``ancestor dotted-prefixes'' of a name with parts \<open>p1.p2.....pn\<close>: the
  strings \<open>p1\<close>, \<open>p1.p2\<close>, ..., \<open>p1.....p(n-1)\<close>. This definition follows the
  specification's words; \<open>invalid_prefixes\<close> above is what the source computes.
\<close>

definition ancestor_prefixes :: "string \<Rightarrow> string list" where
  "ancestor_prefixes name =
     map (\<lambda>i. str_join ''.'' (take i (split_dot name))) [1 ..< length (split_dot name)]"

text \<open>Every key of \<open>loaded\<close> is a name that \<open>from_name\<close> imports.\<close>

definition imports_ok :: "('e, 'm) importer \<Rightarrow> 'm load_state \<Rightarrow> bool" where
  "imports_ok f st = (fst ` set (loaded st) \<subseteq> {n. \<exists>m. f n = Inr m})"

text \<open>A name is nested when it contains a dot.\<close>

definition dotted :: "string \<Rightarrow> bool" where
  "dotted name = (CHR ''.'' \<in> set name)"

text \<open>
  The order of the specification: dot-free names before dotted names, and the
  lexicographic order of the names inside each tier.
\<close>

definition precedes :: "string \<Rightarrow> string \<Rightarrow> bool" where
  "precedes a b = ((\<not> dotted a \<and> dotted b) \<or> (dotted a = dotted b \<and> a < b))"

text \<open>
  Importers for concrete runs: one that raises \<open>RuntimeError(msg)\<close> on the listed names,
  one that raises an exception that is no \<open>RuntimeError\<close> on them, and one that imports
  every name. The module returned for a name is the name.
\<close>

definition failing_importer :: "string list \<Rightarrow> string \<Rightarrow> (unit, string) importer" where
  "failing_importer bad msg name = (if name \<in> set bad then Inl (RuntimeError msg) else Inr name)"

definition aborting_importer :: "string list \<Rightarrow> (string, string) importer" where
  "aborting_importer bad name =
     (if name \<in> set bad then Inl (OtherException ''KeyboardInterrupt'') else Inr name)"

definition all_importer :: "(unit, string) importer" where
  "all_importer name = Inr name"

text \<open>
  Collaborators for concrete runs: a module renders to a heading with its name, the index
  page is the given text, the index of a module is its name, and the search payload is
  the concatenation of the entries.
\<close>

definition demo_pdoc :: "bool \<Rightarrow> string \<Rightarrow> string pdoc" where
  "demo_pdoc flag index =
     \<lparr>html_module = (\<lambda>m ms. Inr (''<h1>'' @ fullname m @ ''</h1>'')),
      html_index = (\<lambda>ms. Inr index),
      make_index = (\<lambda>key. Inr [fst key]),
      search_js = (\<lambda>entries. Inr (concat entries)),
      search_enabled = flag,
      json_dump = concat,
      json_load = (\<lambda>s. Inr [s])\<rparr>"

text \<open>The specification's ``replacing every dot with a path separator''.\<close>

definition dot_to_sep :: "char \<Rightarrow> char" where
  "dot_to_sep c = (if c = CHR ''.'' then CHR ''/'' else c)"

text \<open>An output directory and a state with no files, for concrete runs.\<close>

definition docs :: path where
  "docs = Path False [''docs'']"

definition empty_world :: world where
  "empty_world = \<lparr>files = Map.empty, trace = []\<rparr>"

text \<open>\<open>anc q p\<close>: the path \<open>q\<close> is \<open>p\<close> or one of its ancestors.\<close>

definition anc :: "path \<Rightarrow> path \<Rightarrow> bool" where
  "anc q p = (absolute q = absolute p \<and> prefix (parts q) (parts p))"

text \<open>
  \<open>frame R fs fs'\<close>: wherever the files \<open>fs'\<close> differ from \<open>fs\<close>, the new content of the path
  satisfies \<open>R\<close>.
\<close>

definition frame :: "(path \<Rightarrow> node option \<Rightarrow> bool) \<Rightarrow> fs \<Rightarrow> fs \<Rightarrow> bool" where
  "frame R fs fs' = (\<forall>q. fs' q = fs q \<or> R q (fs' q))"

text \<open>What \<open>mkdir\<close> of \<open>p\<close> may change: a directory at \<open>p\<close> or at an ancestor of \<open>p\<close>.\<close>

definition made_dir :: "path \<Rightarrow> path \<Rightarrow> node option \<Rightarrow> bool" where
  "made_dir p q n = (n = Some Dir \<and> anc q p)"

text \<open>The root of the search cache, line 143: \<open>output_directory / ".cache" / "search"\<close>.\<close>

definition search_root :: "path \<Rightarrow> path" where
  "search_root output_directory =
     path_join (path_join output_directory (path_of ''.cache'')) (path_of ''search'')"

text \<open>
  What storing the entry \<open>e\<close> may change: directories up to the parent of \<open>e\<close>, and a file
  at \<open>e\<close>.
\<close>

definition entry_touch :: "path \<Rightarrow> path \<Rightarrow> node option \<Rightarrow> bool" where
  "entry_touch e q n = (made_dir (parent e) q n \<or> (q = e \<and> (\<exists>s. n = Some (File s))))"

text \<open>The method \<open>save\<close> of a cache writes one file, at the path it is given.\<close>

definition saves_file :: "('k, 'v) cache \<Rightarrow> bool" where
  "saves_file c =
     (\<forall>p v fs fs'. cache_save c p v fs = Inr fs' \<longrightarrow> (\<exists>s. fs' = fs(p \<mapsto> File s)))"

text \<open>
  The places of the persisted layout: the page of a module, the index fragment of an item
  of the mapping, and the two aggregate outputs.
\<close>

definition html_entry :: "path \<Rightarrow> module \<Rightarrow> path" where
  "html_entry output_directory m = path_join output_directory (CacheHTML_key m)"

definition json_entry :: "path \<Rightarrow> string \<times> module \<Rightarrow> path" where
  "json_entry output_directory item = path_join (search_root output_directory) (CacheIndex_key item)"

definition index_html :: "path \<Rightarrow> path" where
  "index_html output_directory = path_join output_directory (path_of ''index.html'')"

definition search_js_path :: "path \<Rightarrow> path" where
  "search_js_path output_directory = path_join output_directory (path_of ''search.js'')"

text \<open>Everything that \<open>render_modules\<close> may change in the files.\<close>

definition touched ::
  "'d pdoc \<Rightarrow> (string \<times> module) list \<Rightarrow> path \<Rightarrow> path \<Rightarrow> node option \<Rightarrow> bool" where
  "touched pd ms output_directory q n =
     (made_dir output_directory q n
      \<or> (\<exists>m \<in> snd ` set ms. entry_touch (html_entry output_directory m) q n)
      \<or> (q = index_html output_directory
          \<and> (\<exists>s. n = Some (File s) \<and> s \<noteq> [] \<and> html_index pd ms = Inr s))
      \<or> made_dir (search_root output_directory) q n
      \<or> (search_enabled pd
          \<and> ((\<exists>item \<in> set ms. entry_touch (json_entry output_directory item) q n)
              \<or> (q = search_js_path output_directory \<and> (\<exists>s. n = Some (File s) \<and> s \<noteq> [])))))"

text \<open>
  The run of \<open>render_modules\<close> through line 143: the value assigned to \<open>search\<close>, and the
  state in which line 144 tests it.
\<close>

definition run_to_search ::
  "'d pdoc \<Rightarrow> (string \<times> module) list \<Rightarrow> path \<Rightarrow> world \<Rightarrow> error + (string \<times> world)" where
  "run_to_search pd modules output_directory w =
     (case Cache_init output_directory w of
        Inl e \<Rightarrow> Inl e
      | Inr w1 \<Rightarrow>
     (case render_loop (CacheHTML pd output_directory modules) modules w1 of
        Inl e \<Rightarrow> Inl e
      | Inr w2 \<Rightarrow>
     (case html_index pd modules of
        Inl e \<Rightarrow> Inl e
      | Inr index \<Rightarrow>
     (case write_if_nonempty (path_join output_directory (path_of ''index.html'')) index w2 of
        Inl e \<Rightarrow> Inl e
      | Inr w3 \<Rightarrow>
          search_index pd modules
            (path_join (path_join output_directory (path_of ''.cache'')) (path_of ''search'')) w3))))"

text \<open>Everything that this part of the run may change in the files.\<close>

definition touched_pages ::
  "'d pdoc \<Rightarrow> (string \<times> module) list \<Rightarrow> path \<Rightarrow> path \<Rightarrow> node option \<Rightarrow> bool" where
  "touched_pages pd ms output_directory q n =
     (made_dir output_directory q n
      \<or> (\<exists>m \<in> snd ` set ms. entry_touch (html_entry output_directory m) q n)
      \<or> (q = index_html output_directory
          \<and> (\<exists>s. n = Some (File s) \<and> s \<noteq> [] \<and> html_index pd ms = Inr s))
      \<or> made_dir (search_root output_directory) q n
      \<or> (search_enabled pd
          \<and> (\<exists>item \<in> set ms. entry_touch (json_entry output_directory item) q n)))"

section \<open>Properties of the loader\<close>

lemma split_dot_not_Nil: "split_dot s \<noteq> []"
  by (induction s) (auto split: list.splits)

lemma length_split_dot: "length (split_dot s) = Suc (count_dots s)"
  by (induction s) (auto simp: count_dots_def split_dot_not_Nil split: list.splits)

lemma invalid_prefixes_top_level: "count_dots name = 0 \<Longrightarrow> invalid_prefixes name = {}"
  by (simp add: invalid_prefixes_def length_split_dot)

lemma load_loop_append:
  "load_loop f st (xs @ ys) =
     (case load_loop f st xs of Inl e \<Rightarrow> Inl e | Inr st' \<Rightarrow> load_loop f st' ys)"
  by (induction xs arbitrary: st) (auto split: sum.splits)

lemma load_step_Inr:
  assumes "load_step f st n = Inr st'"
  shows "st' = st
       \<or> (\<exists>m. f n = Inr m \<and> st' = st\<lparr>loaded := AList.update n m (loaded st)\<rparr>)
       \<or> st' = st\<lparr>invalid := invalid st \<union> invalid_prefixes n\<rparr>"
  using assms
  by (auto simp: load_step_def split: if_splits sum.splits raised.splits)

lemma load_step_imports_ok:
  assumes "imports_ok f st" "load_step f st n = Inr st'"
  shows "imports_ok f st'"
  using load_step_Inr[OF assms(2)] assms(1)
  unfolding imports_ok_def
  by (elim disjE exE conjE) (simp_all add: dom_update)

lemma load_loop_imports_ok:
  "imports_ok f st \<Longrightarrow> load_loop f st ns = Inr st' \<Longrightarrow> imports_ok f st'"
  by (induction ns arbitrary: st) (auto split: sum.splits dest: load_step_imports_ok)

lemma load_step_distinct:
  "distinct (map fst (loaded st)) \<Longrightarrow> load_step f st n = Inr st' \<Longrightarrow> distinct (map fst (loaded st'))"
  by (auto simp: load_step_def distinct_update split: if_splits sum.splits raised.splits)

lemma load_loop_distinct:
  "distinct (map fst (loaded st)) \<Longrightarrow> load_loop f st ns = Inr st' \<Longrightarrow> distinct (map fst (loaded st'))"
  by (induction ns arbitrary: st) (auto split: sum.splits dest: load_step_distinct)

lemma final_mapping_names_subset: "fst ` set (final_mapping st) \<subseteq> fst ` set (loaded st)"
  by (auto simp: final_mapping_def)

lemma final_mapping_sorted: "sorted (map sort_rank (map fst (final_mapping st)))"
proof -
  have "sorted (map (\<lambda>x. sort_rank (fst x)) (sort_key (\<lambda>x. sort_rank (fst x)) (loaded st)))"
    by (rule sorted_sort_key)
  then have "sorted (map (\<lambda>x. sort_rank (fst x)) (final_mapping st))"
    unfolding final_mapping_def by (rule sorted_filter)
  then show ?thesis by (simp add: comp_def)
qed

lemma final_mapping_distinct:
  assumes "distinct (map fst (loaded st))"
  shows "distinct (map fst (final_mapping st))"
proof -
  have "distinct (map fst (sort_key (\<lambda>x. sort_rank (fst x)) (loaded st)))"
    using assms by (simp add: distinct_map)
  then show ?thesis
    unfolding final_mapping_def by (rule distinct_map_filter)
qed

lemma inj_sort_rank: "inj sort_rank"
  by (auto simp: inj_def sort_rank_def)

lemma count_dots_dotted: "count_dots name = 0 \<longleftrightarrow> \<not> dotted name"
  by (simp add: count_dots_def dotted_def count_list_0_iff)

lemma sort_rank_less: "sort_rank a < sort_rank b \<longleftrightarrow> precedes a b"
  by (cases "dotted a"; cases "dotted b") (simp_all add: sort_rank_def precedes_def count_dots_dotted less_prod_def)

lemma strict_sorted_precedes:
  assumes "sorted (map sort_rank ns)" "distinct ns"
  shows "sorted_wrt precedes ns"
proof -
  have "distinct (map sort_rank ns)"
    using assms(2) by (simp add: distinct_map inj_sort_rank inj_on_subset[OF inj_sort_rank])
  with assms(1) have "sorted_wrt (<) (map sort_rank ns)"
    by (simp add: strict_sorted_iff)
  then show ?thesis
    by (simp add: sorted_wrt_map sort_rank_less)
qed

lemmas loader_eval =
  load_modules_def load_step_def final_mapping_def sort_rank_def count_dots_def
  invalid_prefixes_def chars_of_def failing_importer_def aborting_importer_def

text \<open>
  Claim C1. The claim: an import error on \<open>pkg.broken\<close> adds the ancestor prefix \<open>pkg\<close> to
  the invalid set. The source slices the string \<open>name\<close> where the list \<open>parts\<close> was meant, so
  the set receives \<open>p\<close>, the first character of the name, and \<open>pkg\<close> stays out; the
  submodule \<open>pkg.broken.anything\<close> and the package \<open>pkg\<close> both reach the final mapping.
\<close>

theorem load_step_pkg_broken:
  "load_step (failing_importer [''pkg.broken''] ''Error importing pkg.broken'')
       \<lparr>loaded = [], invalid = {}\<rparr> ''pkg.broken''
     = Inr \<lparr>loaded = [], invalid = {''p''}\<rparr>
   \<and> ancestor_prefixes ''pkg.broken'' = [''pkg'']
   \<and> load_modules (failing_importer [''pkg.broken''] ''Error importing pkg.broken'')
         [''pkg'', ''pkg.broken'', ''pkg.broken.anything'']
     = Inr [(''pkg'', ''pkg''), (''pkg.broken.anything'', ''pkg.broken.anything'')]"
  by (simp add: loader_eval ancestor_prefixes_def)

text \<open>
  Claim C2, as stated, fails. After \<open>a.b\<close> failed to import, \<open>a\<close> is in the invalid set and is
  an ancestor prefix of the candidate \<open>a.c\<close>; the loader imports \<open>a.c\<close> all the same, and
  \<open>a.c\<close> is in the final mapping.
\<close>

theorem prefix_skip_counterexample:
  "load_loop (failing_importer [''a.b''] ''Error importing a.b'')
       \<lparr>loaded = [], invalid = {}\<rparr> [''a.b'']
     = Inr \<lparr>loaded = [], invalid = {''a''}\<rparr>
   \<and> ''a'' \<in> set (ancestor_prefixes ''a.c'')
   \<and> load_step (failing_importer [''a.b''] ''Error importing a.b'')
       \<lparr>loaded = [], invalid = {''a''}\<rparr> ''a.c''
     = Inr \<lparr>loaded = [(''a.c'', ''a.c'')], invalid = {''a''}\<rparr>
   \<and> load_modules (failing_importer [''a.b''] ''Error importing a.b'') [''a.b'', ''a.c'']
     = Inr [(''a.c'', ''a.c'')]"
  by (simp add: loader_eval ancestor_prefixes_def)

text \<open>
  Claim C2, amended. A candidate that is itself a member of the invalid set is skipped,
  whatever the importer would do with it (so no import is attempted); and no name of the
  final mapping is a member of the final invalid set.
\<close>

theorem invalid_exact_membership:
  "(name \<in> invalid st \<longrightarrow> load_step from_name st name = Inr st)
   \<and> (load_loop from_name \<lparr>loaded = [], invalid = {}\<rparr> candidates = Inr st'
        \<longrightarrow> load_modules from_name candidates = Inr (final_mapping st')
            \<and> (\<forall>n \<in> fst ` set (final_mapping st'). n \<notin> invalid st'))"
  by (auto simp: load_step_def load_modules_def final_mapping_def)

theorem invalid_exact_membership_witness:
  "''a'' \<in> invalid \<lparr>loaded = [], invalid = {''a''}\<rparr>
   \<and> load_step (aborting_importer [''a'']) \<lparr>loaded = [], invalid = {''a''}\<rparr> ''a''
       = Inr \<lparr>loaded = [], invalid = {''a''}\<rparr>
   \<and> load_loop (failing_importer [''a.b''] ''Error importing a.b'')
         \<lparr>loaded = [], invalid = {}\<rparr> [''a'', ''a.b'', ''c'']
       = Inr \<lparr>loaded = [(''a'', ''a''), (''c'', ''c'')], invalid = {''a''}\<rparr>
   \<and> load_modules (failing_importer [''a.b''] ''Error importing a.b'') [''a'', ''a.b'', ''c'']
       = Inr [(''c'', ''c'')]
   \<and> ''c'' \<notin> {''a''}"
proof -
  have h1: "''a'' \<in> invalid \<lparr>loaded = ([] :: (string \<times> string) list), invalid = {''a''}\<rparr>"
    by simp
  have h2: "load_loop (failing_importer [''a.b''] ''Error importing a.b'')
         \<lparr>loaded = [], invalid = {}\<rparr> [''a'', ''a.b'', ''c'']
       = Inr \<lparr>loaded = [(''a'', ''a''), (''c'', ''c'')], invalid = {''a''}\<rparr>"
    by (simp add: loader_eval)
  have fm: "final_mapping \<lparr>loaded = [(''a'', ''a''), (''c'', ''c'')], invalid = {''a''}\<rparr>
       = [(''c'', ''c'')]"
    by (simp add: loader_eval)
  from invalid_exact_membership
         [of "''a''" "\<lparr>loaded = [], invalid = {''a''}\<rparr>" "aborting_importer [''a'']"
             "[]" "\<lparr>loaded = [], invalid = {}\<rparr>"]
       invalid_exact_membership
         [of "''a''" "\<lparr>loaded = [], invalid = {''a''}\<rparr>"
             "failing_importer [''a.b''] ''Error importing a.b''"
             "[''a'', ''a.b'', ''c'']"
             "\<lparr>loaded = [(''a'', ''a''), (''c'', ''c'')], invalid = {''a''}\<rparr>"]
       h1 h2
  show ?thesis by (simp add: fm)
qed

lemma load_step_total:
  assumes "\<forall>e. from_name name \<noteq> Inl (OtherException e)"
  shows "\<exists>st'. load_step from_name st name = Inr st'"
  using assms
  by (cases "from_name name") (auto simp: load_step_def split: raised.splits)

lemma load_loop_total:
  assumes "\<forall>n \<in> set names. \<forall>e. from_name n \<noteq> Inl (OtherException e)"
  shows "\<exists>st'. load_loop from_name st names = Inr st'"
  using assms
proof (induction names arbitrary: st)
  case Nil
  then show ?case by simp
next
  case (Cons n ns)
  then obtain st1 where "load_step from_name st n = Inr st1"
    using load_step_total[of from_name n st] by auto
  moreover obtain st2 where "load_loop from_name st1 ns = Inr st2"
    using Cons by fastforce
  ultimately show ?case by simp
qed

text \<open>
  Claim C5, amended. Loading is aborted only by an exception that is no \<open>RuntimeError\<close>: if
  no candidate raises such an exception the loader returns a mapping; a candidate that is
  reached and raises one aborts the loop with that exception, the remaining candidates
  unvisited; and after a \<open>RuntimeError\<close> the loop continues with the remaining candidates,
  the invalid set extended when the message contains \<open>Error importing\<close> and the state
  unchanged otherwise.
\<close>

theorem runtime_errors_recoverable:
  "((\<forall>n \<in> set candidates. \<forall>e. from_name n \<noteq> Inl (OtherException e))
      \<longrightarrow> (\<exists>result. load_modules from_name candidates = Inr result))
   \<and> (name \<notin> invalid st \<and> from_name name = Inl (OtherException e)
      \<longrightarrow> load_loop from_name st (name # rest) = Inl e)
   \<and> (name \<notin> invalid st \<and> from_name name = Inl (RuntimeError msg)
      \<longrightarrow> load_loop from_name st (name # rest)
          = load_loop from_name
              (if str_contains ''Error importing'' msg
               then st\<lparr>invalid := invalid st \<union> invalid_prefixes name\<rparr> else st) rest)"
proof (intro conjI impI)
  assume "\<forall>n \<in> set candidates. \<forall>e. from_name n \<noteq> Inl (OtherException e)"
  then obtain st' where "load_loop from_name \<lparr>loaded = [], invalid = {}\<rparr> candidates = Inr st'"
    using load_loop_total by blast
  then show "\<exists>result. load_modules from_name candidates = Inr result"
    by (simp add: load_modules_def)
next
  assume "name \<notin> invalid st \<and> from_name name = Inl (OtherException e)"
  then show "load_loop from_name st (name # rest) = Inl e"
    by (simp add: load_step_def)
next
  assume "name \<notin> invalid st \<and> from_name name = Inl (RuntimeError msg)"
  then show "load_loop from_name st (name # rest)
          = load_loop from_name
              (if str_contains ''Error importing'' msg
               then st\<lparr>invalid := invalid st \<union> invalid_prefixes name\<rparr> else st) rest"
    by (simp add: load_step_def)
qed

text \<open>
  Claim C5, as stated, fails. A \<open>RuntimeError\<close> whose message does not contain
  \<open>Error importing\<close> is no import error, yet it does not propagate: the loader goes on
  and returns the mapping of the other candidates.
\<close>

theorem other_runtime_error_counterexample:
  "\<not> str_contains ''Error importing'' ''boom''
   \<and> failing_importer [''x''] ''boom'' ''x'' = Inl (RuntimeError ''boom'')
   \<and> load_modules (failing_importer [''x''] ''boom'') [''x'', ''y''] = Inr [(''y'', ''y'')]"
  by (simp add: loader_eval)

theorem runtime_errors_recoverable_witness:
  "load_modules (failing_importer [''x''] ''boom'') [''x'', ''y''] = Inr [(''y'', ''y'')]
   \<and> load_loop (aborting_importer [''x'']) \<lparr>loaded = [], invalid = {}\<rparr> [''x'', ''y'']
       = Inl ''KeyboardInterrupt''
   \<and> load_loop (failing_importer [''a.b''] ''Error importing a.b'')
         \<lparr>loaded = [], invalid = {}\<rparr> [''a.b'', ''a'']
       = Inr \<lparr>loaded = [], invalid = {''a''}\<rparr>"
proof -
  have a: "\<forall>n \<in> set [''x'', ''y'']. \<forall>e. failing_importer [''x''] ''boom'' n \<noteq> Inl (OtherException e)"
    by (simp add: failing_importer_def)
  have b: "''x'' \<notin> invalid \<lparr>loaded = ([] :: (string \<times> string) list), invalid = {}\<rparr>
           \<and> aborting_importer [''x''] ''x'' = Inl (OtherException ''KeyboardInterrupt'')"
    by (simp add: aborting_importer_def)
  have c: "''a.b'' \<notin> invalid \<lparr>loaded = ([] :: (string \<times> string) list), invalid = {}\<rparr>
           \<and> failing_importer [''a.b''] ''Error importing a.b'' ''a.b''
               = Inl (RuntimeError ''Error importing a.b'')"
    by (simp add: failing_importer_def)
  have d: "str_contains ''Error importing'' ''Error importing a.b''"
    by simp
  note t = runtime_errors_recoverable
  from t[of "[''x'', ''y'']" "failing_importer [''x''] ''boom''"] a
  obtain result where r: "load_modules (failing_importer [''x''] ''boom'') [''x'', ''y''] = Inr result"
    by blast
  then have r': "result = [(''y'', ''y'')]"
    by (simp add: loader_eval)
  from t[of "[]" "aborting_importer [''x'']" "''x''" "\<lparr>loaded = [], invalid = {}\<rparr>"
            "''KeyboardInterrupt''" "[''y'']"] b
  have s2: "load_loop (aborting_importer [''x'']) \<lparr>loaded = [], invalid = {}\<rparr> [''x'', ''y'']
       = Inl ''KeyboardInterrupt''"
    by blast
  from t[of "[]" "failing_importer [''a.b''] ''Error importing a.b''" "''a.b''"
            "\<lparr>loaded = [], invalid = {}\<rparr>" _ "[''a'']" "''Error importing a.b''"] c d
  have s3: "load_loop (failing_importer [''a.b''] ''Error importing a.b'')
         \<lparr>loaded = [], invalid = {}\<rparr> [''a.b'', ''a'']
       = load_loop (failing_importer [''a.b''] ''Error importing a.b'')
           (\<lparr>loaded = [], invalid = {}\<rparr>\<lparr>invalid := {} \<union> invalid_prefixes ''a.b''\<rparr>) [''a'']"
    by simp
  show ?thesis
    using r r' s2 s3 by (simp add: loader_eval)
qed

lemma load_modules_sorted_distinct:
  assumes "load_modules from_name candidates = Inr result"
  shows "sorted (map sort_rank (map fst result))" and "distinct (map fst result)"
proof -
  from assms obtain st where
    st: "load_loop from_name \<lparr>loaded = [], invalid = {}\<rparr> candidates = Inr st"
    and res: "result = final_mapping st"
    by (auto simp: load_modules_def split: sum.splits)
  show "sorted (map sort_rank (map fst result))"
    unfolding res by (rule final_mapping_sorted)
  have "distinct (map fst (loaded st))"
    using load_loop_distinct[OF _ st] by simp
  then show "distinct (map fst result)"
    unfolding res by (rule final_mapping_distinct)
qed

text \<open>
  Claim C6. The names of the mapping that \<open>load_modules\<close> returns are in the order
  \<open>precedes\<close>: every dot-free name before every dotted name, each tier in lexicographic
  order. When the names are \<open>b\<close>, \<open>a.x\<close>, \<open>a\<close> and \<open>c.y\<close>, the order is
  \<open>a\<close>, \<open>b\<close>, \<open>a.x\<close>, \<open>c.y\<close>.
\<close>

theorem final_order_two_tiers:
  "load_modules from_name candidates = Inr result \<longrightarrow>
     sorted_wrt precedes (map fst result)
     \<and> (set (map fst result) = {''b'', ''a.x'', ''a'', ''c.y''}
          \<longrightarrow> map fst result = [''a'', ''b'', ''a.x'', ''c.y''])"
proof (intro impI conjI)
  assume r: "load_modules from_name candidates = Inr result"
  note sd = load_modules_sorted_distinct[OF r]
  show "sorted_wrt precedes (map fst result)"
    using sd by (rule strict_sorted_precedes)
  assume s: "set (map fst result) = {''b'', ''a.x'', ''a'', ''c.y''}"
  let ?ns = "map fst result" and ?ex = "[''a'', ''b'', ''a.x'', ''c.y'']"
  have "distinct (map sort_rank ?ns)"
    using sd(2) by (simp only: distinct_map) (simp add: inj_on_subset[OF inj_sort_rank])
  moreover have "sorted (map sort_rank ?ex)" "distinct (map sort_rank ?ex)"
    by (simp_all add: sort_rank_def count_dots_def)
  moreover have "set (map sort_rank ?ns) = set (map sort_rank ?ex)"
    using s by (simp only: set_map) auto
  ultimately have "map sort_rank ?ns = map sort_rank ?ex"
    using sd(1) by (intro sorted_distinct_set_unique)
  then show "?ns = ?ex"
    using inj_sort_rank by (simp only: inj_map_eq_map)
qed

theorem final_order_two_tiers_witness:
  "load_modules all_importer [''b'', ''a.x'', ''a'', ''c.y'']
     = Inr [(''a'', ''a''), (''b'', ''b''), (''a.x'', ''a.x''), (''c.y'', ''c.y'')]
   \<and> sorted_wrt precedes [''a'', ''b'', ''a.x'', ''c.y'']"
proof -
  have r: "load_modules all_importer [''b'', ''a.x'', ''a'', ''c.y'']
     = Inr [(''a'', ''a''), (''b'', ''b''), (''a.x'', ''a.x''), (''c.y'', ''c.y'')]"
    by (simp add: loader_eval all_importer_def)
  from final_order_two_tiers[of all_importer "[''b'', ''a.x'', ''a'', ''c.y'']"
         "[(''a'', ''a''), (''b'', ''b''), (''a.x'', ''a.x''), (''c.y'', ''c.y'')]"] r
  show ?thesis by simp
qed

lemma load_modules_names_import:
  assumes "load_modules from_name candidates = Inr result"
  shows "fst ` set result \<subseteq> {n. \<exists>m. from_name n = Inr m}"
proof -
  from assms obtain st where
    st: "load_loop from_name \<lparr>loaded = [], invalid = {}\<rparr> candidates = Inr st"
    and res: "result = final_mapping st"
    by (auto simp: load_modules_def split: sum.splits)
  have "imports_ok from_name st"
    using load_loop_imports_ok[OF _ st] by (simp add: imports_ok_def)
  then show ?thesis
    unfolding res imports_ok_def using final_mapping_names_subset[of st] by blast
qed

text \<open>
  Claim C9. When a name without a dot fails with an import error, the step leaves the
  whole state, the invalid set included, as it was; the run is the run of the candidates
  without that name; and the name is in no returned mapping.
\<close>

theorem top_level_failure_no_prune:
  "count_dots name = 0 \<and> from_name name = Inl (RuntimeError msg)
     \<and> str_contains ''Error importing'' msg \<longrightarrow>
     load_step from_name st name = Inr st
     \<and> load_modules from_name (before @ name # after) = load_modules from_name (before @ after)
     \<and> (\<forall>result. load_modules from_name candidates = Inr result \<longrightarrow> name \<notin> fst ` set result)"
proof (intro impI conjI allI)
  assume h: "count_dots name = 0 \<and> from_name name = Inl (RuntimeError msg)
     \<and> str_contains ''Error importing'' msg"
  then have step: "load_step from_name st name = Inr st" for st :: "'b load_state"
    by (simp add: load_step_def invalid_prefixes_top_level)
  then show "load_step from_name st name = Inr st" .
  have "load_loop from_name s0 (before @ name # after) = load_loop from_name s0 (before @ after)"
    for s0 :: "'b load_state"
    by (simp add: load_loop_append step split: sum.splits)
  then show "load_modules from_name (before @ name # after) = load_modules from_name (before @ after)"
    by (simp add: load_modules_def)
  fix result
  assume "load_modules from_name candidates = Inr result"
  from load_modules_names_import[OF this] h
  show "name \<notin> fst ` set result" by auto
qed

theorem top_level_failure_no_prune_witness:
  "load_step (failing_importer [''bad''] ''Error importing bad'')
       \<lparr>loaded = [(''a'', ''a'')], invalid = {}\<rparr> ''bad''
     = Inr \<lparr>loaded = [(''a'', ''a'')], invalid = {}\<rparr>
   \<and> load_modules (failing_importer [''bad''] ''Error importing bad'') [''a'', ''bad'', ''bad.sub'']
     = Inr [(''a'', ''a''), (''bad.sub'', ''bad.sub'')]
   \<and> ''bad'' \<notin> fst ` set [(''a'', ''a''), (''bad.sub'', ''bad.sub'')]"
proof -
  have h: "count_dots ''bad'' = 0
     \<and> failing_importer [''bad''] ''Error importing bad'' ''bad''
         = Inl (RuntimeError ''Error importing bad'')
     \<and> str_contains ''Error importing'' ''Error importing bad''"
    by (simp add: count_dots_def failing_importer_def)
  have r: "load_modules (failing_importer [''bad''] ''Error importing bad'') ([''a''] @ [''bad.sub''])
     = Inr [(''a'', ''a''), (''bad.sub'', ''bad.sub'')]"
    by (simp add: loader_eval)
  note t = top_level_failure_no_prune
      [of "''bad''" "failing_importer [''bad''] ''Error importing bad''" "''Error importing bad''"
          "\<lparr>loaded = [(''a'', ''a'')], invalid = {}\<rparr>" "[''a'']" "[''bad.sub'']"
          "[''a'', ''bad'', ''bad.sub'']"]
  from t h have
    a: "load_step (failing_importer [''bad''] ''Error importing bad'')
       \<lparr>loaded = [(''a'', ''a'')], invalid = {}\<rparr> ''bad''
     = Inr \<lparr>loaded = [(''a'', ''a'')], invalid = {}\<rparr>"
    and b: "load_modules (failing_importer [''bad''] ''Error importing bad'')
              ([''a''] @ ''bad'' # [''bad.sub''])
            = load_modules (failing_importer [''bad''] ''Error importing bad'')
              ([''a''] @ [''bad.sub''])"
    by blast+
  from b r have c: "load_modules (failing_importer [''bad''] ''Error importing bad'')
       [''a'', ''bad'', ''bad.sub''] = Inr [(''a'', ''a''), (''bad.sub'', ''bad.sub'')]"
    by simp
  from t h c have "''bad'' \<notin> fst ` set [(''a'', ''a''), (''bad.sub'', ''bad.sub'')]"
    by blast
  with a c show ?thesis by blast
qed

section \<open>Properties of the caches\<close>

lemma str_replace_dot: "str_replace ''.'' ''/'' s = map dot_to_sep s"
proof (induction s)
  case Nil
  then show ?case by simp
next
  case (Cons c cs)
  have dot: "str_replace ''.'' ''/'' (CHR ''.'' # cs) = CHR ''/'' # str_replace ''.'' ''/'' cs"
    by simp
  have other: "c \<noteq> CHR ''.'' \<Longrightarrow> str_replace ''.'' ''/'' (c # cs) = c # str_replace ''.'' ''/'' cs"
    by simp
  show ?case
  proof (cases "c = CHR ''.''")
    case True
    have "dot_to_sep (CHR ''.'') = CHR ''/''" by (simp add: dot_to_sep_def)
    then show ?thesis
      unfolding True using dot Cons.IH by simp
  next
    case False
    then have "dot_to_sep c = c" by (simp add: dot_to_sep_def)
    then show ?thesis
      using other[OF False] Cons.IH by simp
  qed
qed

lemma str_split_not_Nil: "str_split sep s \<noteq> []"
  by (induction s) (auto split: list.splits)

lemma str_split_append:
  "sep \<notin> set ys \<Longrightarrow>
     str_split sep (xs @ ys) = butlast (str_split sep xs) @ [last (str_split sep xs) @ ys]"
proof (induction xs)
  case Nil
  then show ?case
    by (induction ys) (auto split: list.splits)
next
  case (Cons x xs)
  then show ?case
    by (auto simp: str_split_not_Nil split: list.splits)
qed

lemma str_split_no_sep: "p \<in> set (str_split sep s) \<Longrightarrow> sep \<notin> set p"
  by (induction s arbitrary: p) (auto split: if_splits list.splits)

lemma str_split_map_dot:
  "CHR ''/'' \<notin> set s \<Longrightarrow> str_split (CHR ''/'') (map dot_to_sep s) = split_dot s"
  by (induction s) (auto simp: dot_to_sep_def split: list.splits)

text \<open>
  Claim C8. The key of a module in the HTML cache is the path of its fullname with every
  dot replaced by the separator, followed by \<open>.html\<close>. For a name without \<open>/\<close> whose dotted
  parts are not empty, this is the relative path whose directories are the parts but the
  last and whose file is the last part with \<open>.html\<close>; \<open>pkg.sub\<close> maps to \<open>pkg/sub.html\<close>.
\<close>

theorem CacheHTML_key_path:
  "CacheHTML_key m = path_of (map dot_to_sep (fullname m) @ ''.html'')
   \<and> (CHR ''/'' \<notin> set (fullname m) \<and> [] \<notin> set (split_dot (fullname m))
        \<longrightarrow> CacheHTML_key m
            = Path False (butlast (split_dot (fullname m)) @ [last (split_dot (fullname m)) @ ''.html'']))"
proof (intro conjI impI)
  show k: "CacheHTML_key m = path_of (map dot_to_sep (fullname m) @ ''.html'')"
    by (simp add: CacheHTML_key_def str_replace_dot)
  assume h: "CHR ''/'' \<notin> set (fullname m) \<and> [] \<notin> set (split_dot (fullname m))"
  let ?n = "fullname m" and ?ps = "split_dot (fullname m)"
  have sp: "str_split (CHR ''/'') (map dot_to_sep ?n @ ''.html'') = butlast ?ps @ [last ?ps @ ''.html'']"
    using h by (simp add: str_split_append str_split_map_dot)
  have keep: "\<forall>c \<in> set (butlast ?ps @ [last ?ps @ ''.html'']). c \<noteq> [] \<and> c \<noteq> ''.''"
  proof
    fix c assume "c \<in> set (butlast ?ps @ [last ?ps @ ''.html''])"
    then consider "c \<in> set (butlast ?ps)" | "c = last ?ps @ ''.html''" by auto
    then show "c \<noteq> [] \<and> c \<noteq> ''.''"
    proof cases
      case 1
      then have "c \<in> set ?ps" by (rule in_set_butlastD)
      then have "c \<noteq> []" "CHR ''.'' \<notin> set c"
        using h str_split_no_sep by auto
      then show ?thesis by auto
    next
      case 2
      then show ?thesis by (cases "last ?ps") auto
    qed
  qed
  have "?n \<noteq> []" using h by auto
  then have "hd ?n \<noteq> CHR ''.''"
    using h by (cases ?n) (auto split: if_splits)
  moreover have "hd ?n \<noteq> CHR ''/''"
    using h \<open>?n \<noteq> []\<close> by (cases ?n) auto
  ultimately have nabs: "\<not> prefix ''/'' (map dot_to_sep ?n @ ''.html'')"
    using \<open>?n \<noteq> []\<close> by (cases ?n) (auto simp: dot_to_sep_def)
  show "CacheHTML_key m = Path False (butlast ?ps @ [last ?ps @ ''.html''])"
    unfolding k path_of_def sp using keep nabs by (simp add: filter_id_conv)
qed

theorem CacheHTML_key_path_witness:
  "CacheHTML_key \<lparr>fullname = ''pkg.sub''\<rparr> = path_of ''pkg/sub.html''
   \<and> CacheHTML_key \<lparr>fullname = ''pkg.sub''\<rparr> = Path False [''pkg'', ''sub.html'']"
proof -
  have h: "CHR ''/'' \<notin> set (fullname \<lparr>fullname = ''pkg.sub''\<rparr>)
           \<and> [] \<notin> set (split_dot (fullname \<lparr>fullname = ''pkg.sub''\<rparr>))"
    by simp
  from CacheHTML_key_path[of "\<lparr>fullname = ''pkg.sub''\<rparr>"] h
  show ?thesis by (simp add: dot_to_sep_def path_of_def)
qed

lemmas fs_eval =
  mkdir_parents.simps os_mkdir_def lookup_def parent_def is_dir_def exists_def
  write_file_def write_text_def read_file_def read_text_def path_join_def path_of_def

lemmas cache_eval =
  get_def getitem_def setitem_def compute_def contains_def entry_path_def Cache_init_def Let_def
  CacheHTML_def CacheHTML_key_def CacheIndex_def CacheIndex_key_def CacheIndex_init_def

text \<open>
  Claim C4. When the path of the key does not exist, \<open>get\<close> calls \<open>compute\<close> once, makes the
  parent directories, saves the value at the path and returns it; a second \<open>get\<close> calls
  \<open>compute\<close> no more, loads the entry and returns the same value, given that \<open>load\<close>
  gives back what \<open>save\<close> stored. The hypotheses say that \<open>compute\<close>, \<open>mkdir\<close> and \<open>save\<close>
  do not raise.
\<close>

theorem get_memoizes:
  assumes "\<not> exists (files w) (entry_path c k)"
    and "cache_compute c k = Inr v"
    and "mkdir_parents (parent (entry_path c k)) (files w) = Inr fs1"
    and "cache_save c (entry_path c k) v fs1 = Inr fs2"
    and "exists fs2 (entry_path c k)"
    and "cache_load c (entry_path c k) fs2 = Inr v"
  shows "get c k w
           = Inr (v, w\<lparr>files := fs2,
                       trace := trace w @ [Compute (entry_path c k), Save (entry_path c k)]\<rparr>)
         \<and> get c k (w\<lparr>files := fs2,
                       trace := trace w @ [Compute (entry_path c k), Save (entry_path c k)]\<rparr>)
           = Inr (v, w\<lparr>files := fs2,
                       trace := trace w @ [Compute (entry_path c k), Save (entry_path c k),
                                           Load (entry_path c k)]\<rparr>)"
proof
  have miss: "getitem c k w = Inl KeyError"
    using assms(1) by (simp add: getitem_def Let_def)
  have comp: "compute c k w = Inr (v, w\<lparr>trace := trace w @ [Compute (entry_path c k)]\<rparr>)"
    using assms(2) by (simp add: compute_def)
  have store: "setitem c k v (w\<lparr>trace := trace w @ [Compute (entry_path c k)]\<rparr>)
      = Inr (w\<lparr>files := fs2,
                trace := trace w @ [Compute (entry_path c k), Save (entry_path c k)]\<rparr>)"
    using assms(3,4) by (simp add: setitem_def Let_def)
  show "get c k w
           = Inr (v, w\<lparr>files := fs2,
                       trace := trace w @ [Compute (entry_path c k), Save (entry_path c k)]\<rparr>)"
    by (simp add: get_def miss comp store)
  show "get c k (w\<lparr>files := fs2,
                       trace := trace w @ [Compute (entry_path c k), Save (entry_path c k)]\<rparr>)
           = Inr (v, w\<lparr>files := fs2,
                       trace := trace w @ [Compute (entry_path c k), Save (entry_path c k),
                                           Load (entry_path c k)]\<rparr>)"
    using assms(5,6) by (simp add: get_def getitem_def Let_def)
qed

theorem get_memoizes_witness:
  "get (CacheHTML (demo_pdoc True '''') docs []) \<lparr>fullname = ''p.q''\<rparr> empty_world
     = Inr (''<h1>p.q</h1>'',
            \<lparr>files = [Path False [''docs''] \<mapsto> Dir, Path False [''docs'', ''p''] \<mapsto> Dir,
                      Path False [''docs'', ''p'', ''q.html''] \<mapsto> File ''<h1>p.q</h1>''],
             trace = [Compute (Path False [''docs'', ''p'', ''q.html'']),
                      Save (Path False [''docs'', ''p'', ''q.html''])]\<rparr>)
   \<and> get (CacheHTML (demo_pdoc True '''') docs []) \<lparr>fullname = ''p.q''\<rparr>
         \<lparr>files = [Path False [''docs''] \<mapsto> Dir, Path False [''docs'', ''p''] \<mapsto> Dir,
                   Path False [''docs'', ''p'', ''q.html''] \<mapsto> File ''<h1>p.q</h1>''],
          trace = [Compute (Path False [''docs'', ''p'', ''q.html'']),
                   Save (Path False [''docs'', ''p'', ''q.html''])]\<rparr>
     = Inr (''<h1>p.q</h1>'',
            \<lparr>files = [Path False [''docs''] \<mapsto> Dir, Path False [''docs'', ''p''] \<mapsto> Dir,
                      Path False [''docs'', ''p'', ''q.html''] \<mapsto> File ''<h1>p.q</h1>''],
             trace = [Compute (Path False [''docs'', ''p'', ''q.html'']),
                      Save (Path False [''docs'', ''p'', ''q.html'']),
                      Load (Path False [''docs'', ''p'', ''q.html''])]\<rparr>)"
proof -
  let ?c = "CacheHTML (demo_pdoc True '''') docs [] :: (module, string) cache"
  let ?k = "\<lparr>fullname = ''p.q''\<rparr>"
  let ?fs1 = "[Path False [''docs''] \<mapsto> Dir, Path False [''docs'', ''p''] \<mapsto> Dir]"
  let ?fs2 = "?fs1(Path False [''docs'', ''p'', ''q.html''] \<mapsto> File ''<h1>p.q</h1>'')"
  have p: "entry_path ?c ?k = Path False [''docs'', ''p'', ''q.html'']"
    by (simp add: cache_eval fs_eval docs_def)
  have h1: "\<not> exists (files empty_world) (entry_path ?c ?k)"
    unfolding p by (simp add: empty_world_def fs_eval)
  have h2: "cache_compute ?c ?k = Inr ''<h1>p.q</h1>''"
    by (simp add: CacheHTML_def demo_pdoc_def)
  have h3: "mkdir_parents (parent (entry_path ?c ?k)) (files empty_world) = Inr ?fs1"
    unfolding p by (simp add: empty_world_def fs_eval)
  have h4: "cache_save ?c (entry_path ?c ?k) ''<h1>p.q</h1>'' ?fs1 = Inr ?fs2"
    unfolding p by (simp add: CacheHTML_def fs_eval)
  have h5: "exists ?fs2 (entry_path ?c ?k)"
    unfolding p by (simp add: fs_eval)
  have h6: "cache_load ?c (entry_path ?c ?k) ?fs2 = Inr ''<h1>p.q</h1>''"
    unfolding p by (simp add: CacheHTML_def fs_eval)
  from get_memoizes[OF h1 h2 h3 h4 h5 h6]
  show ?thesis
    unfolding p by (simp add: empty_world_def)
qed

section \<open>Properties of the rendering\<close>

lemma frame_refl: "frame R fs fs"
  by (simp add: frame_def)

lemma frame_trans: "frame R fs fs1 \<Longrightarrow> frame R fs1 fs2 \<Longrightarrow> frame R fs fs2"
  unfolding frame_def by metis

lemma frame_mono: "frame R fs fs' \<Longrightarrow> (\<And>q n. R q n \<Longrightarrow> S q n) \<Longrightarrow> frame S fs fs'"
  unfolding frame_def by blast

lemma anc_parent: "anc q (parent p) \<Longrightarrow> anc q p"
  unfolding anc_def parent_def
  by (cases "parts p" rule: rev_cases) (auto intro: prefix_order.trans)

lemma os_mkdir_Inr: "os_mkdir p fs = Inr fs' \<Longrightarrow> fs' = fs(p \<mapsto> Dir)"
  by (auto simp: os_mkdir_def split: option.splits node.splits)

lemma os_mkdir_frame: "os_mkdir p fs = Inr fs' \<Longrightarrow> frame (made_dir p) fs fs'"
  by (drule os_mkdir_Inr) (simp add: frame_def made_dir_def anc_def)

lemma made_dir_parent: "made_dir (parent p) q n \<Longrightarrow> made_dir p q n"
  by (auto simp: made_dir_def dest: anc_parent)

lemma mkdir_parents_frame:
  "mkdir_parents p fs = Inr fs' \<Longrightarrow> frame (made_dir p) fs fs'"
proof (induction p fs arbitrary: fs' rule: mkdir_parents.induct)
  case (1 p fs)
  show ?case
  proof (cases "os_mkdir p fs")
    case (Inr fs0)
    then show ?thesis
      using "1.prems" os_mkdir_frame by (simp add: mkdir_parents.simps[of p fs])
  next
    case (Inl e)
    show ?thesis
    proof (cases "e = FileNotFoundError")
      case False
      then show ?thesis
        using "1.prems" Inl
        by (simp add: mkdir_parents.simps[of p fs] frame_refl split: if_splits)
    next
      case True
      with "1.prems" Inl have np: "parent p \<noteq> p"
        by (simp add: mkdir_parents.simps[of p fs] split: if_splits)
      with "1.prems" Inl True obtain fs1 where
        rec: "mkdir_parents (parent p) fs = Inr fs1"
        and fin: "os_mkdir p fs1 = Inr fs' \<or> fs' = fs1"
        by (auto simp: mkdir_parents.simps[of p fs] split: sum.splits if_splits)
      have "frame (made_dir (parent p)) fs fs1"
        using "1.IH"[OF Inl True np rec] .
      then have a: "frame (made_dir p) fs fs1"
        by (rule frame_mono) (rule made_dir_parent)
      from fin show ?thesis
      proof
        assume "os_mkdir p fs1 = Inr fs'"
        then have "frame (made_dir p) fs1 fs'" by (rule os_mkdir_frame)
        with a show ?thesis by (rule frame_trans)
      next
        assume "fs' = fs1"
        with a show ?thesis by simp
      qed
    qed
  qed
qed

lemma os_mkdir_is_dir: "os_mkdir p fs = Inr fs' \<Longrightarrow> is_dir fs' p"
  by (auto simp: os_mkdir_def is_dir_def lookup_def split: option.splits node.splits if_splits)

lemma mkdir_parents_is_dir: "mkdir_parents p fs = Inr fs' \<Longrightarrow> is_dir fs' p"
  by (subst (asm) mkdir_parents.simps)
     (auto split: sum.splits if_splits dest: os_mkdir_is_dir)

text \<open>
  Claim C10. With the search flag off, \<open>search_index\<close> still constructs the cache first:
  its result is the result of making the root directory (an error of \<open>mkdir\<close> is raised
  although search is off), the rendering of the template context is recorded, and the
  root is a directory afterwards.
\<close>

theorem search_index_constructs_first:
  "\<not> search_enabled pd \<longrightarrow>
     search_index pd modules cache_root w
       = (case mkdir_parents cache_root (files w) of
            Inl e \<Rightarrow> Inl e
          | Inr fs1 \<Rightarrow> Inr ([], \<lparr>files = fs1, trace = trace w @ [RenderContext]\<rparr>))
     \<and> (\<forall>fs1. mkdir_parents cache_root (files w) = Inr fs1 \<longrightarrow> is_dir fs1 cache_root)"
  by (cases w)
     (auto simp: search_index_def CacheIndex_init_def Cache_init_def mkdir_parents_is_dir
           split: sum.splits)

lemma write_file_Inr: "write_file p s fs = Inr fs' \<Longrightarrow> fs' = fs(p \<mapsto> File s)"
  by (auto simp: write_file_def split: option.splits node.splits)

lemma saves_file_CacheHTML: "saves_file (CacheHTML pd p ms)"
  by (auto simp: saves_file_def CacheHTML_def write_text_def dest: write_file_Inr)

lemma saves_file_CacheIndex: "saves_file (CacheIndex pd p ms)"
  by (auto simp: saves_file_def CacheIndex_def dest: write_file_Inr)

lemma entry_path_CacheHTML: "entry_path (CacheHTML pd out ms) m = html_entry out m"
  by (simp add: entry_path_def CacheHTML_def html_entry_def)

lemma entry_path_CacheIndex:
  "entry_path (CacheIndex pd (search_root out) ms) item = json_entry out item"
  by (simp add: entry_path_def CacheIndex_def json_entry_def)

lemma setitem_frame:
  assumes "saves_file c" "setitem c k v w = Inr w'"
  shows "frame (entry_touch (entry_path c k)) (files w) (files w')"
proof -
  let ?e = "entry_path c k"
  from assms(2) obtain fs1 fs2 where
    mk: "mkdir_parents (parent ?e) (files w) = Inr fs1"
    and sv: "cache_save c ?e v fs1 = Inr fs2"
    and w': "files w' = fs2"
    by (auto simp: setitem_def Let_def split: sum.splits)
  from sv assms(1) obtain s where fs2: "fs2 = fs1(?e \<mapsto> File s)"
    unfolding saves_file_def by blast
  have "frame (made_dir (parent ?e)) (files w) fs1"
    using mk by (rule mkdir_parents_frame)
  then have a: "frame (entry_touch ?e) (files w) fs1"
    by (rule frame_mono) (simp add: entry_touch_def)
  have b: "frame (entry_touch ?e) fs1 fs2"
    unfolding fs2 by (simp add: frame_def entry_touch_def)
  show ?thesis
    unfolding w' using a b by (rule frame_trans)
qed

lemma compute_files: "compute c k w = Inr (v, w') \<Longrightarrow> files w' = files w"
  by (auto simp: compute_def split: sum.splits)

lemma getitem_files: "getitem c k w = Inr (v, w') \<Longrightarrow> files w' = files w"
  by (auto simp: getitem_def Let_def split: sum.splits if_splits)

lemma get_frame:
  assumes "saves_file c" "get c k w = Inr (v, w')"
  shows "frame (entry_touch (entry_path c k)) (files w) (files w')"
proof (cases "getitem c k w")
  case (Inr r)
  then show ?thesis
    using assms(2) getitem_files[of c k w v w'] by (simp add: get_def frame_refl)
next
  case (Inl e)
  with assms(2) obtain w1 where
    "compute c k w = Inr (v, w1)" "setitem c k v w1 = Inr w'"
    by (auto simp: get_def split: if_splits sum.splits)
  then show ?thesis
    using setitem_frame[OF assms(1), of k v w1 w'] compute_files[of c k w v w1] by simp
qed

lemma render_loop_frame:
  assumes "saves_file c"
  shows "render_loop c items w = Inr w' \<Longrightarrow>
     frame (\<lambda>q n. \<exists>m \<in> snd ` set items. entry_touch (entry_path c m) q n) (files w) (files w')"
proof (induction items arbitrary: w)
  case Nil
  then show ?case by (simp add: frame_refl)
next
  case (Cons item items)
  obtain name m where item: "item = (name, m)" by (cases item)
  let ?R = "\<lambda>q n. \<exists>m \<in> snd ` set (item # items). entry_touch (entry_path c m) q n"
  have tail: "frame ?R (files w1) (files w')" if "render_loop c items w1 = Inr w'" for w1
    using Cons.IH[OF that] by (rule frame_mono) auto
  show ?case
  proof (cases "contains c m w")
    case True
    then show ?thesis
      using Cons.prems tail by (simp add: item)
  next
    case False
    with Cons.prems obtain v w1 w2 where
      c: "compute c m w = Inr (v, w1)" and s: "setitem c m v w1 = Inr w2"
      and r: "render_loop c items w2 = Inr w'"
      by (auto simp: item split: sum.splits)
    have "frame (entry_touch (entry_path c m)) (files w) (files w2)"
      using setitem_frame[OF assms s] compute_files[OF c] by simp
    then have "frame ?R (files w) (files w2)"
      by (rule frame_mono) (auto simp: item)
    then show ?thesis
      using tail[OF r] by (rule frame_trans)
  qed
qed

lemma index_loop_frame:
  assumes "saves_file c"
  shows "index_loop c items w = Inr (idx, w') \<Longrightarrow>
     frame (\<lambda>q n. \<exists>item \<in> set items. entry_touch (entry_path c item) q n) (files w) (files w')"
proof (induction items arbitrary: w idx)
  case Nil
  then show ?case by (simp add: frame_refl)
next
  case (Cons item items)
  let ?R = "\<lambda>q n. \<exists>i \<in> set (item # items). entry_touch (entry_path c i) q n"
  from Cons.prems obtain entries w1 others where
    g: "get c item w = Inr (entries, w1)" and r: "index_loop c items w1 = Inr (others, w')"
    by (auto split: sum.splits)
  have "frame (entry_touch (entry_path c item)) (files w) (files w1)"
    using get_frame[OF assms g] .
  then have a: "frame ?R (files w) (files w1)"
    by (rule frame_mono) auto
  have b: "frame ?R (files w1) (files w')"
    using Cons.IH[OF r] by (rule frame_mono) auto
  show ?case using a b by (rule frame_trans)
qed

lemma Cache_init_frame: "Cache_init p w = Inr w' \<Longrightarrow> frame (made_dir p) (files w) (files w')"
  by (auto simp: Cache_init_def split: sum.splits dest: mkdir_parents_frame)

lemma Cache_init_trace: "Cache_init p w = Inr w' \<Longrightarrow> trace w' = trace w"
  by (auto simp: Cache_init_def split: sum.splits)

lemma write_if_nonempty_frame:
  "write_if_nonempty p s w = Inr w' \<Longrightarrow>
     frame (\<lambda>q n. q = p \<and> n = Some (File s) \<and> s \<noteq> []) (files w) (files w')"
  by (auto simp: write_if_nonempty_def frame_def split: if_splits sum.splits dest: write_file_Inr)

lemma search_index_frame:
  assumes "search_index pd ms (search_root out) w = Inr (js, w')"
  shows "frame (\<lambda>q n. made_dir (search_root out) q n
                  \<or> (search_enabled pd
                      \<and> (\<exists>item \<in> set ms. entry_touch (json_entry out item) q n)))
           (files w) (files w')"
    (is "frame ?R _ _")
proof -
  from assms obtain w1 where
    i: "Cache_init (search_root out) w = Inr w1"
    and rest: "if \<not> search_enabled pd then files w' = files w1
               else (\<exists>idx. index_loop (CacheIndex pd (search_root out) ms) ms
                              (w1\<lparr>trace := trace w1 @ [RenderContext]\<rparr>) = Inr (idx, w'))"
    by (auto simp: search_index_def CacheIndex_init_def split: sum.splits if_splits)
  have a: "frame ?R (files w) (files w1)"
    using Cache_init_frame[OF i] by (rule frame_mono) simp
  show ?thesis
  proof (cases "search_enabled pd")
    case False
    with rest a show ?thesis by simp
  next
    case True
    with rest obtain idx where
      l: "index_loop (CacheIndex pd (search_root out) ms) ms
            (w1\<lparr>trace := trace w1 @ [RenderContext]\<rparr>) = Inr (idx, w')"
      by auto
    have "frame ?R (files w1) (files w')"
      using index_loop_frame[OF saves_file_CacheIndex l]
      by (simp only: entry_path_CacheIndex) (rule frame_mono, simp, use True in auto)
    with a show ?thesis by (rule frame_trans)
  qed
qed

lemma search_index_disabled:
  "\<not> search_enabled pd \<Longrightarrow> search_index pd ms root w = Inr (js, w') \<Longrightarrow> js = []"
  by (auto simp: search_index_def split: sum.splits)

lemma render_modules_frame:
  assumes "render_modules pd ms out w = Inr w'"
  shows "frame (touched pd ms out) (files w) (files w')"
proof -
  from assms obtain w1 w2 index w3 js w4 where
    s1: "Cache_init out w = Inr w1"
    and s2: "render_loop (CacheHTML pd out ms) ms w1 = Inr w2"
    and s3: "html_index pd ms = Inr index"
    and s4: "write_if_nonempty (index_html out) index w2 = Inr w3"
    and s5: "search_index pd ms (search_root out) w3 = Inr (js, w4)"
    and s6: "write_if_nonempty (search_js_path out) js w4 = Inr w'"
    by (auto simp: render_modules_def index_html_def search_js_path_def search_root_def
             split: sum.splits)
  let ?T = "touched pd ms out"
  have f1: "frame ?T (files w) (files w1)"
    using Cache_init_frame[OF s1] by (rule frame_mono) (simp add: touched_def)
  have f2: "frame ?T (files w1) (files w2)"
    using render_loop_frame[OF saves_file_CacheHTML s2]
    by (simp only: entry_path_CacheHTML) (rule frame_mono, simp, auto simp: touched_def)
  have f3: "frame ?T (files w2) (files w3)"
  proof (rule frame_mono[OF write_if_nonempty_frame[OF s4]])
    fix q n
    assume "q = index_html out \<and> n = Some (File index) \<and> index \<noteq> []"
    then show "?T q n" using s3 by (simp add: touched_def)
  qed
  have f4: "frame ?T (files w3) (files w4)"
    using search_index_frame[OF s5] by (rule frame_mono) (auto simp: touched_def)
  have "js = []" if "\<not> search_enabled pd"
    using search_index_disabled[OF that s5] .
  then have en: "js \<noteq> [] \<Longrightarrow> search_enabled pd"
    by blast
  have f5: "frame ?T (files w4) (files w')"
  proof (rule frame_mono[OF write_if_nonempty_frame[OF s6]])
    fix q n
    assume "q = search_js_path out \<and> n = Some (File js) \<and> js \<noteq> []"
    then show "?T q n" using en by (simp add: touched_def)
  qed
  from f1 f2 f3 f4 f5 show ?thesis
    by (blast intro: frame_trans)
qed

lemma str_split_chars_all: "\<forall>p \<in> set (str_split sep s). set p \<subseteq> set s"
proof (induction s)
  case Nil
  then show ?case by simp
next
  case (Cons c cs)
  show ?case
  proof (cases "c = sep")
    case True
    then show ?thesis using Cons.IH by auto
  next
    case False
    obtain p ps where sp: "str_split sep cs = p # ps"
      using str_split_not_Nil[of sep cs] by (cases "str_split sep cs") auto
    with False have "str_split sep (c # cs) = (c # p) # ps" by simp
    moreover have "set p \<subseteq> set cs" "\<forall>q \<in> set ps. set q \<subseteq> set cs"
      using Cons.IH sp by auto
    ultimately show ?thesis by auto
  qed
qed

lemma str_split_chars: "p \<in> set (str_split sep s) \<Longrightarrow> set p \<subseteq> set s"
  using str_split_chars_all by blast

lemma CacheHTML_key_parts:
  shows "parts (CacheHTML_key m) \<noteq> []"
    and "suffix ''.html'' (last (parts (CacheHTML_key m)))"
    and "\<forall>c \<in> set (butlast (parts (CacheHTML_key m))). CHR ''.'' \<notin> set c"
proof -
  let ?r = "map dot_to_sep (fullname m)"
  let ?S = "str_split (CHR ''/'') ?r"
  let ?ok = "\<lambda>c. c \<noteq> [] \<and> c \<noteq> ''.''"
  have sp: "str_split (CHR ''/'') (?r @ ''.html'') = butlast ?S @ [last ?S @ ''.html'']"
    by (simp add: str_split_append)
  have "?ok (last ?S @ ''.html'')"
    by (cases "last ?S") auto
  then have p: "parts (CacheHTML_key m) = filter ?ok (butlast ?S) @ [last ?S @ ''.html'']"
    by (simp add: CacheHTML_key_def str_replace_dot path_of_def sp)
  show "parts (CacheHTML_key m) \<noteq> []"
    unfolding p by simp
  show "suffix ''.html'' (last (parts (CacheHTML_key m)))"
    unfolding p by (simp add: suffix_def)
  have nodot: "CHR ''.'' \<notin> set ?r"
    by (auto simp: dot_to_sep_def)
  show "\<forall>c \<in> set (butlast (parts (CacheHTML_key m))). CHR ''.'' \<notin> set c"
  proof
    fix c assume "c \<in> set (butlast (parts (CacheHTML_key m)))"
    then have "c \<in> set (butlast ?S)"
      unfolding p by (simp add: butlast_append)
    then have "c \<in> set ?S" by (rule in_set_butlastD)
    then have "set c \<subseteq> set ?r" by (rule str_split_chars)
    with nodot show "CHR ''.'' \<notin> set c" by blast
  qed
qed

lemma prefix_snoc_butlast_append:
  assumes "prefix (ps @ [x]) (butlast (ps @ ks))"
  shows "x \<in> set (butlast ks)"
proof (cases "ks = []")
  case True
  with assms have "length (ps @ [x]) \<le> length (butlast ps)"
    by (auto dest: prefix_length_le)
  then show ?thesis by simp
next
  case False
  with assms have "prefix [x] (butlast ks)"
    by (simp add: butlast_append)
  then show ?thesis
    by (auto simp: prefix_def)
qed

lemma prefix_snoc_mem: "prefix (ps @ [x]) ks \<Longrightarrow> x \<in> set ks"
  by (auto simp: prefix_def)

lemma not_anc_entry_parent:
  assumes "x \<notin> set (butlast (parts k))"
  shows "\<not> anc (Path a (ps @ [x])) (parent (path_join (Path a ps) k))"
proof (cases "absolute k")
  case True
  then show ?thesis
    using assms by (auto simp: anc_def parent_def path_join_def dest: prefix_snoc_mem)
next
  case False
  then show ?thesis
    using assms
    by (auto simp: anc_def parent_def path_join_def dest: prefix_snoc_butlast_append)
qed

lemma snoc_neq_entry:
  assumes "parts k \<noteq> []" "last (parts k) \<noteq> x"
  shows "Path a (ps @ [x]) \<noteq> path_join (Path a ps) k"
proof (cases "absolute k")
  case True
  show ?thesis
  proof
    assume "Path a (ps @ [x]) = path_join (Path a ps) k"
    with True have "parts k = ps @ [x]"
      by (simp add: path_join_def) (metis path.sel(2))
    with assms(2) show False by simp
  qed
next
  case False
  show ?thesis
  proof
    assume "Path a (ps @ [x]) = path_join (Path a ps) k"
    with False have "parts k = [x]"
      by (simp add: path_join_def)
    with assms(2) show False by simp
  qed
qed

lemma search_js_path_eq:
  "search_js_path out = Path (absolute out) (parts out @ [''search.js''])"
  by (simp add: search_js_path_def path_join_def path_of_def)

lemma index_html_eq:
  "index_html out = Path (absolute out) (parts out @ [''index.html''])"
  by (simp add: index_html_def path_join_def path_of_def)

lemma search_root_eq:
  "search_root out = Path (absolute out) (parts out @ [''.cache'', ''search''])"
  by (simp add: search_root_def path_join_def path_of_def)

lemma search_js_not_html:
  shows "\<not> entry_touch (html_entry out m) (search_js_path out) n"
proof -
  let ?k = "CacheHTML_key m"
  note kp = CacheHTML_key_parts[of m]
  have "''search.js'' \<notin> set (butlast (parts ?k))"
    using kp(3) by auto
  then have a: "\<not> anc (search_js_path out) (parent (html_entry out m))"
    unfolding search_js_path_eq html_entry_def
    using not_anc_entry_parent[of "''search.js''" ?k "absolute out" "parts out"]
    by (cases out) simp
  have "last (parts ?k) \<noteq> ''search.js''"
    using kp(2) by (auto simp: suffix_def)
  then have b: "search_js_path out \<noteq> html_entry out m"
    unfolding search_js_path_eq html_entry_def
    using snoc_neq_entry[OF kp(1), of "''search.js''" "absolute out" "parts out"]
    by (cases out) simp
  show ?thesis
    using a b by (simp add: entry_touch_def made_dir_def)
qed

lemma search_js_not_touched:
  assumes "\<not> search_enabled pd"
  shows "\<not> touched pd ms out (search_js_path out) n"
proof -
  have "\<not> anc (search_js_path out) out"
    by (simp add: search_js_path_eq anc_def)
  moreover have "\<not> anc (search_js_path out) (search_root out)"
    by (simp add: search_js_path_eq search_root_eq anc_def)
  moreover have "search_js_path out \<noteq> index_html out"
    by (simp add: search_js_path_eq index_html_eq)
  ultimately show ?thesis
    using assms search_js_not_html by (auto simp: touched_def made_dir_def)
qed

text \<open>
  Claim C7. With the search flag off, \<open>search_index\<close> returns the empty string, records no
  \<open>compute\<close>, \<open>load\<close> or \<open>save\<close> of a cache entry, and changes the files only by the
  directories of the cache root; and \<open>render_modules\<close> leaves \<open>search.js\<close> at the output
  root as it was.
\<close>

theorem search_disabled_no_entries:
  "\<not> search_enabled pd \<longrightarrow>
     (\<forall>js w'. search_index pd ms cache_root w = Inr (js, w') \<longrightarrow>
        js = [] \<and> trace w' = trace w @ [RenderContext]
        \<and> frame (made_dir cache_root) (files w) (files w'))
     \<and> (\<forall>w'. render_modules pd ms out w = Inr w' \<longrightarrow>
          lookup (files w') (search_js_path out) = lookup (files w) (search_js_path out))"
proof (intro impI conjI allI)
  fix js w'
  assume off: "\<not> search_enabled pd" and r: "search_index pd ms cache_root w = Inr (js, w')"
  from off r show "js = []" by (rule search_index_disabled)
  from off r obtain w1 where
    i: "Cache_init cache_root w = Inr w1" and w': "w' = w1\<lparr>trace := trace w1 @ [RenderContext]\<rparr>"
    by (auto simp: search_index_def CacheIndex_init_def split: sum.splits)
  show "trace w' = trace w @ [RenderContext]"
    using Cache_init_trace[OF i] by (simp add: w')
  show "frame (made_dir cache_root) (files w) (files w')"
    using Cache_init_frame[OF i] by (simp add: w')
next
  fix w'
  assume off: "\<not> search_enabled pd" and r: "render_modules pd ms out w = Inr w'"
  have "files w' (search_js_path out) = files w (search_js_path out)"
    using render_modules_frame[OF r] search_js_not_touched[OF off]
    unfolding frame_def by blast
  then show "lookup (files w') (search_js_path out) = lookup (files w) (search_js_path out)"
    by (simp add: lookup_def)
qed

lemma frame_exists:
  assumes "frame R fs fs'" "\<And>q n. R q n \<Longrightarrow> n \<noteq> None" "exists fs q"
  shows "exists fs' q"
  using assms unfolding frame_def exists_def lookup_def
  by (cases "parts q = []") (simp, metis)

lemma entry_touch_Some: "entry_touch e q n \<Longrightarrow> n \<noteq> None"
  by (auto simp: entry_touch_def made_dir_def)

lemma touched_Some: "touched pd ms out q n \<Longrightarrow> n \<noteq> None"
  by (auto simp: touched_def made_dir_def dest: entry_touch_Some)

lemma setitem_exists:
  assumes "saves_file c" "setitem c k v w = Inr w'"
  shows "exists (files w') (entry_path c k)"
proof -
  from assms(2) obtain fs1 fs2 where
    sv: "cache_save c (entry_path c k) v fs1 = Inr fs2" and w': "files w' = fs2"
    by (auto simp: setitem_def Let_def split: sum.splits)
  from sv assms(1) obtain s where "fs2 = fs1(entry_path c k \<mapsto> File s)"
    unfolding saves_file_def by blast
  then show ?thesis
    by (simp add: w' exists_def lookup_def)
qed

lemma get_exists:
  assumes "saves_file c" "get c k w = Inr (v, w')"
  shows "exists (files w') (entry_path c k)"
proof (cases "getitem c k w")
  case (Inr r)
  with assms(2) have "getitem c k w = Inr (v, w')" by (simp add: get_def)
  then show ?thesis
    by (auto simp: getitem_def Let_def split: if_splits sum.splits)
next
  case (Inl e)
  with assms(2) obtain w1 where "setitem c k v w1 = Inr w'"
    by (auto simp: get_def split: if_splits sum.splits)
  then show ?thesis
    using setitem_exists[OF assms(1)] by blast
qed

lemma render_loop_exists:
  assumes "saves_file c"
  shows "render_loop c items w = Inr w' \<Longrightarrow>
     \<forall>m \<in> snd ` set items. exists (files w') (entry_path c m)"
proof (induction items arbitrary: w)
  case Nil
  then show ?case by simp
next
  case (Cons item items)
  obtain name m where item: "item = (name, m)" by (cases item)
  from Cons.prems obtain w2 where
    head: "exists (files w2) (entry_path c m)" and r: "render_loop c items w2 = Inr w'"
  proof (cases "contains c m w")
    case True
    with Cons.prems that show ?thesis
      by (simp add: item contains_def)
  next
    case False
    with Cons.prems obtain v w1 w2 where
      "setitem c m v w1 = Inr w2" "render_loop c items w2 = Inr w'"
      by (auto simp: item split: sum.splits)
    with that setitem_exists[OF assms] show ?thesis by blast
  qed
  have "exists (files w') (entry_path c m)"
    using frame_exists[OF render_loop_frame[OF assms r] _ head] entry_touch_Some by blast
  with Cons.IH[OF r] show ?case by (simp add: item)
qed

lemma index_loop_exists:
  assumes "saves_file c"
  shows "index_loop c items w = Inr (idx, w') \<Longrightarrow>
     \<forall>item \<in> set items. exists (files w') (entry_path c item)"
proof (induction items arbitrary: w idx)
  case Nil
  then show ?case by simp
next
  case (Cons item items)
  from Cons.prems obtain entries w1 others where
    g: "get c item w = Inr (entries, w1)" and r: "index_loop c items w1 = Inr (others, w')"
    by (auto split: sum.splits)
  have "exists (files w1) (entry_path c item)"
    using get_exists[OF assms g] .
  then have "exists (files w') (entry_path c item)"
    using frame_exists[OF index_loop_frame[OF assms r]] entry_touch_Some by blast
  with Cons.IH[OF r] show ?case by simp
qed

lemma write_if_nonempty_exists:
  "write_if_nonempty p s w = Inr w' \<Longrightarrow> exists (files w) q \<Longrightarrow> exists (files w') q"
  using frame_exists[OF write_if_nonempty_frame, of p s w w' q] by blast

lemma search_index_exists:
  assumes "search_index pd ms (search_root out) w = Inr (js, w')" "exists (files w) q"
  shows "exists (files w') q"
  using frame_exists[OF search_index_frame[OF assms(1)] _ assms(2)]
  by (auto simp: made_dir_def dest: entry_touch_Some)

lemma search_index_entries:
  assumes "search_index pd ms (search_root out) w = Inr (js, w')" "search_enabled pd"
  shows "\<forall>item \<in> set ms. exists (files w') (json_entry out item)"
proof -
  from assms obtain w1 idx where
    "index_loop (CacheIndex pd (search_root out) ms) ms w1 = Inr (idx, w')"
    by (auto simp: search_index_def split: sum.splits)
  from index_loop_exists[OF saves_file_CacheIndex this] show ?thesis
    by (simp only: entry_path_CacheIndex)
qed

lemma render_modules_split:
  "render_modules pd ms out w
     = (case run_to_search pd ms out w of
          Inl e \<Rightarrow> Inl e
        | Inr (js, w4) \<Rightarrow> write_if_nonempty (search_js_path out) js w4)"
  by (simp add: render_modules_def run_to_search_def search_js_path_def split: sum.splits)

lemma run_to_search_steps:
  assumes "run_to_search pd ms out w = Inr (js, w4)"
  obtains w1 w2 index w3 where
    "Cache_init out w = Inr w1"
    "render_loop (CacheHTML pd out ms) ms w1 = Inr w2"
    "html_index pd ms = Inr index"
    "write_if_nonempty (index_html out) index w2 = Inr w3"
    "search_index pd ms (search_root out) w3 = Inr (js, w4)"
  using assms
  by (auto simp: run_to_search_def index_html_def search_root_def split: sum.splits)

lemma run_to_search_frame:
  assumes "run_to_search pd ms out w = Inr (js, w4)"
  shows "frame (touched_pages pd ms out) (files w) (files w4)"
proof -
  from assms obtain w1 w2 index w3 where
    s1: "Cache_init out w = Inr w1"
    and s2: "render_loop (CacheHTML pd out ms) ms w1 = Inr w2"
    and s3: "html_index pd ms = Inr index"
    and s4: "write_if_nonempty (index_html out) index w2 = Inr w3"
    and s5: "search_index pd ms (search_root out) w3 = Inr (js, w4)"
    by (rule run_to_search_steps)
  let ?T = "touched_pages pd ms out"
  have f1: "frame ?T (files w) (files w1)"
    using Cache_init_frame[OF s1] by (rule frame_mono) (simp add: touched_pages_def)
  have f2: "frame ?T (files w1) (files w2)"
    using render_loop_frame[OF saves_file_CacheHTML s2]
    by (simp only: entry_path_CacheHTML) (rule frame_mono, simp, auto simp: touched_pages_def)
  have f3: "frame ?T (files w2) (files w3)"
  proof (rule frame_mono[OF write_if_nonempty_frame[OF s4]])
    fix q n
    assume "q = index_html out \<and> n = Some (File index) \<and> index \<noteq> []"
    then show "?T q n" using s3 by (simp add: touched_pages_def)
  qed
  have f4: "frame ?T (files w3) (files w4)"
    using search_index_frame[OF s5] by (rule frame_mono) (auto simp: touched_pages_def)
  from f1 f2 f3 f4 show ?thesis
    by (blast intro: frame_trans)
qed

lemma touched_pages_file:
  assumes "touched_pages pd ms out q (Some (File s))"
  shows "(\<exists>m \<in> snd ` set ms. q = html_entry out m)
         \<or> (search_enabled pd \<and> (\<exists>item \<in> set ms. q = json_entry out item))
         \<or> (q = index_html out \<and> s \<noteq> [] \<and> html_index pd ms = Inr s)"
  using assms unfolding touched_pages_def entry_touch_def made_dir_def by auto

lemma CacheIndex_key_parts:
  shows "parts (CacheIndex_key item) \<noteq> []"
    and "suffix ''.json'' (last (parts (CacheIndex_key item)))"
    and "\<forall>c \<in> set (butlast (parts (CacheIndex_key item))). CHR ''.'' \<notin> set c"
proof -
  let ?r = "map dot_to_sep (fst item)"
  let ?S = "str_split (CHR ''/'') ?r"
  let ?ok = "\<lambda>c. c \<noteq> [] \<and> c \<noteq> ''.''"
  have sp: "str_split (CHR ''/'') (?r @ ''.json'') = butlast ?S @ [last ?S @ ''.json'']"
    by (simp add: str_split_append)
  have "?ok (last ?S @ ''.json'')"
    by (cases "last ?S") auto
  then have p: "parts (CacheIndex_key item) = filter ?ok (butlast ?S) @ [last ?S @ ''.json'']"
    by (simp add: CacheIndex_key_def str_replace_dot path_of_def sp)
  show "parts (CacheIndex_key item) \<noteq> []"
    unfolding p by simp
  show "suffix ''.json'' (last (parts (CacheIndex_key item)))"
    unfolding p by (simp add: suffix_def)
  have nodot: "CHR ''.'' \<notin> set ?r"
    by (auto simp: dot_to_sep_def)
  show "\<forall>c \<in> set (butlast (parts (CacheIndex_key item))). CHR ''.'' \<notin> set c"
  proof
    fix c assume "c \<in> set (butlast (parts (CacheIndex_key item)))"
    then have "c \<in> set (butlast ?S)"
      unfolding p by (simp add: butlast_append)
    then have "c \<in> set ?S" by (rule in_set_butlastD)
    then have "set c \<subseteq> set ?r" by (rule str_split_chars)
    with nodot show "CHR ''.'' \<notin> set c" by blast
  qed
qed

lemma index_html_not_json:
  "\<not> entry_touch (json_entry out item) (index_html out) n"
proof -
  let ?k = "CacheIndex_key item"
  note kp = CacheIndex_key_parts[of item]
  have nb: "''index.html'' \<notin> set (butlast (parts ?k))"
    using kp(3) by auto
  have nl: "last (parts ?k) \<noteq> ''index.html''"
    using kp(2) by (auto simp: suffix_def)
  have a: "\<not> anc (index_html out) (parent (json_entry out item))"
  proof (cases "absolute ?k")
    case True
    then show ?thesis
      using nb
      by (auto simp: anc_def parent_def json_entry_def path_join_def index_html_eq
               dest: prefix_snoc_mem)
  next
    case False
    then have "parent (json_entry out item)
        = Path (absolute out) (parts out @ ''.cache'' # ''search'' # butlast (parts ?k))"
      using kp(1) by (simp add: parent_def json_entry_def path_join_def search_root_eq butlast_append)
    then show ?thesis
      by (simp add: anc_def index_html_eq)
  qed
  have b: "index_html out \<noteq> json_entry out item"
  proof (cases "absolute ?k")
    case True
    show ?thesis
    proof
      assume "index_html out = json_entry out item"
      with True have "parts ?k = parts out @ [''index.html'']"
        by (simp add: json_entry_def path_join_def index_html_eq) (metis path.sel(2))
      with nl show False by simp
    qed
  next
    case False
    then show ?thesis
      by (simp add: json_entry_def path_join_def index_html_eq search_root_eq)
  qed
  show ?thesis
    using a b by (simp add: entry_touch_def made_dir_def)
qed

lemma index_html_kept:
  assumes "search_index pd ms (search_root out) w3 = Inr (js, w4)"
    and "write_if_nonempty (search_js_path out) js w4 = Inr w'"
  shows "files w' (index_html out) = files w3 (index_html out)"
proof -
  have "\<not> anc (index_html out) (search_root out)"
    by (simp add: anc_def index_html_eq search_root_eq)
  then have a: "files w4 (index_html out) = files w3 (index_html out)"
    using search_index_frame[OF assms(1)] index_html_not_json
    unfolding frame_def made_dir_def by blast
  have "index_html out \<noteq> search_js_path out"
    by (simp add: index_html_eq search_js_path_eq)
  then have "files w' (index_html out) = files w4 (index_html out)"
    using write_if_nonempty_frame[OF assms(2)] unfolding frame_def by blast
  with a show ?thesis by simp
qed

text \<open>
  Claim C3, amended. After \<open>render_modules\<close>, the page of every module exists under the
  output root itself, at \<open>output / key\<close>; with search on, the fragment of every item
  exists under \<open>output/.cache/search\<close>; and a file that is new or has new content is such
  a page, such a fragment, \<open>index.html\<close> holding the index page that was computed, not
  empty, or \<open>search.js\<close> holding the search payload that was computed, not empty. The last
  step writes the computed payload to \<open>search.js\<close> when it is not empty and changes nothing
  when it is empty; and an index page that is not empty is the content of \<open>index.html\<close> at
  the end.
\<close>

theorem render_modules_layout:
  "render_modules pd ms out w = Inr w' \<longrightarrow>
     (\<forall>m \<in> snd ` set ms. exists (files w') (html_entry out m))
     \<and> (search_enabled pd \<longrightarrow> (\<forall>item \<in> set ms. exists (files w') (json_entry out item)))
     \<and> (\<forall>q s. lookup (files w') q = Some (File s) \<and> lookup (files w) q \<noteq> Some (File s) \<longrightarrow>
           (\<exists>m \<in> snd ` set ms. q = html_entry out m)
           \<or> (search_enabled pd \<and> (\<exists>item \<in> set ms. q = json_entry out item))
           \<or> (q = index_html out \<and> s \<noteq> [] \<and> html_index pd ms = Inr s)
           \<or> (q = search_js_path out \<and> s \<noteq> [] \<and> search_enabled pd
               \<and> (\<exists>w4. run_to_search pd ms out w = Inr (s, w4))))
     \<and> (\<exists>js w4. run_to_search pd ms out w = Inr (js, w4)
           \<and> (if js = [] then w' = w4
               else files w' = (files w4)(search_js_path out \<mapsto> File js)
                    \<and> trace w' = trace w4))
     \<and> (\<forall>index. html_index pd ms = Inr index \<and> index \<noteq> [] \<longrightarrow>
           lookup (files w') (index_html out) = Some (File index))"
proof (intro impI)
  assume r: "render_modules pd ms out w = Inr w'"
  then obtain js w4 where
    run: "run_to_search pd ms out w = Inr (js, w4)"
    and s6: "write_if_nonempty (search_js_path out) js w4 = Inr w'"
    by (auto simp: render_modules_split split: sum.splits)
  from run obtain w1 w2 index w3 where
    s1: "Cache_init out w = Inr w1"
    and s2: "render_loop (CacheHTML pd out ms) ms w1 = Inr w2"
    and s3: "html_index pd ms = Inr index"
    and s4: "write_if_nonempty (index_html out) index w2 = Inr w3"
    and s5: "search_index pd ms (search_root out) w3 = Inr (js, w4)"
    by (rule run_to_search_steps)
  have last_step: "if js = [] then w' = w4
        else files w' = (files w4)(search_js_path out \<mapsto> File js) \<and> trace w' = trace w4"
    using s6 by (auto simp: write_if_nonempty_def split: if_splits sum.splits dest: write_file_Inr)
  have enabled: "search_enabled pd" if "js \<noteq> []"
    using search_index_disabled[OF _ s5] that by blast
  have c1: "\<forall>m \<in> snd ` set ms. exists (files w') (html_entry out m)"
  proof
    fix m assume "m \<in> snd ` set ms"
    then have "exists (files w2) (html_entry out m)"
      using render_loop_exists[OF saves_file_CacheHTML s2]
      by (simp only: entry_path_CacheHTML)
    then have "exists (files w3) (html_entry out m)"
      using s4 by (rule write_if_nonempty_exists[rotated])
    then have "exists (files w4) (html_entry out m)"
      using s5 by (rule search_index_exists[rotated])
    then show "exists (files w') (html_entry out m)"
      using s6 by (rule write_if_nonempty_exists[rotated])
  qed
  have c2: "search_enabled pd \<longrightarrow> (\<forall>item \<in> set ms. exists (files w') (json_entry out item))"
  proof (intro impI ballI)
    fix item assume "search_enabled pd" "item \<in> set ms"
    then have "exists (files w4) (json_entry out item)"
      using search_index_entries[OF s5] by blast
    then show "exists (files w') (json_entry out item)"
      using s6 by (rule write_if_nonempty_exists[rotated])
  qed
  have c3: "(\<exists>m \<in> snd ` set ms. q = html_entry out m)
           \<or> (search_enabled pd \<and> (\<exists>item \<in> set ms. q = json_entry out item))
           \<or> (q = index_html out \<and> s \<noteq> [] \<and> html_index pd ms = Inr s)
           \<or> (q = search_js_path out \<and> s \<noteq> [] \<and> search_enabled pd
               \<and> (\<exists>w4. run_to_search pd ms out w = Inr (s, w4)))"
    if h: "lookup (files w') q = Some (File s) \<and> lookup (files w) q \<noteq> Some (File s)" for q s
  proof -
    from h have "parts q \<noteq> []"
      by (auto simp: lookup_def)
    with h have new: "files w' q = Some (File s)" and old: "files w q \<noteq> Some (File s)"
      by (auto simp: lookup_def)
    show ?thesis
    proof (cases "js \<noteq> [] \<and> q = search_js_path out")
      case True
      with last_step new have "s = js"
        by simp
      with True run enabled show ?thesis
        by blast
    next
      case False
      with last_step have "files w' q = files w4 q"
        by (auto split: if_splits)
      with new old have "files w4 q = Some (File s)" "files w4 q \<noteq> files w q"
        by simp_all
      with run_to_search_frame[OF run] have "touched_pages pd ms out q (Some (File s))"
        unfolding frame_def by metis
      from touched_pages_file[OF this] show ?thesis
        by blast
    qed
  qed
  have c5: "lookup (files w') (index_html out) = Some (File i)"
    if h: "html_index pd ms = Inr i \<and> i \<noteq> []" for i
  proof -
    from h s3 have i: "i = index" "index \<noteq> []" by simp_all
    with s4 have "files w3 (index_html out) = Some (File index)"
      by (auto simp: write_if_nonempty_def split: sum.splits dest: write_file_Inr)
    then have "files w' (index_html out) = Some (File index)"
      using index_html_kept[OF s5 s6] by simp
    then show ?thesis
      by (simp add: lookup_def index_html_eq i)
  qed
  from c1 c2 c3 c5 run last_step
  show "(\<forall>m \<in> snd ` set ms. exists (files w') (html_entry out m))
     \<and> (search_enabled pd \<longrightarrow> (\<forall>item \<in> set ms. exists (files w') (json_entry out item)))
     \<and> (\<forall>q s. lookup (files w') q = Some (File s) \<and> lookup (files w) q \<noteq> Some (File s) \<longrightarrow>
           (\<exists>m \<in> snd ` set ms. q = html_entry out m)
           \<or> (search_enabled pd \<and> (\<exists>item \<in> set ms. q = json_entry out item))
           \<or> (q = index_html out \<and> s \<noteq> [] \<and> html_index pd ms = Inr s)
           \<or> (q = search_js_path out \<and> s \<noteq> [] \<and> search_enabled pd
               \<and> (\<exists>w4. run_to_search pd ms out w = Inr (s, w4))))
     \<and> (\<exists>js w4. run_to_search pd ms out w = Inr (js, w4)
           \<and> (if js = [] then w' = w4
               else files w' = (files w4)(search_js_path out \<mapsto> File js)
                    \<and> trace w' = trace w4))
     \<and> (\<forall>index. html_index pd ms = Inr index \<and> index \<noteq> [] \<longrightarrow>
           lookup (files w') (index_html out) = Some (File index))"
    by blast
qed

lemmas render_eval =
  render_modules_def search_index_def write_if_nonempty_def demo_pdoc_def docs_def
  empty_world_def search_root_def

text \<open>
  Claim C3, as stated, fails. The HTML cache is constructed on the output directory
  (line 130), so the page of the module \<open>a\<close> is written to \<open>docs/a.html\<close>: at the output
  root, outside \<open>docs/.cache\<close>, and neither \<open>index.html\<close> nor \<open>search.js\<close>.
\<close>

theorem html_pages_at_output_root:
  "render_modules (demo_pdoc False '''') [(''a'', \<lparr>fullname = ''a''\<rparr>)] docs empty_world
     = Inr \<lparr>files = [Path False [''docs''] \<mapsto> Dir,
                     Path False [''docs'', ''a.html''] \<mapsto> File ''<h1>a</h1>'',
                     Path False [''docs'', ''.cache''] \<mapsto> Dir,
                     Path False [''docs'', ''.cache'', ''search''] \<mapsto> Dir],
            trace = [Compute (Path False [''docs'', ''a.html'']),
                     Save (Path False [''docs'', ''a.html'']), RenderContext]\<rparr>
   \<and> \<not> anc (Path False [''docs'', ''.cache'']) (Path False [''docs'', ''a.html''])
   \<and> Path False [''docs'', ''a.html''] \<noteq> index_html docs
   \<and> Path False [''docs'', ''a.html''] \<noteq> search_js_path docs"
  by (simp add: render_eval cache_eval fs_eval anc_def index_html_def search_js_path_def)

theorem render_modules_layout_witness:
  "render_modules (demo_pdoc True ''idx'') [(''p.q'', \<lparr>fullname = ''p.q''\<rparr>)] docs empty_world
     = Inr \<lparr>files = [Path False [''docs''] \<mapsto> Dir,
                     Path False [''docs'', ''p''] \<mapsto> Dir,
                     Path False [''docs'', ''p'', ''q.html''] \<mapsto> File ''<h1>p.q</h1>'',
                     Path False [''docs'', ''index.html''] \<mapsto> File ''idx'',
                     Path False [''docs'', ''.cache''] \<mapsto> Dir,
                     Path False [''docs'', ''.cache'', ''search''] \<mapsto> Dir,
                     Path False [''docs'', ''.cache'', ''search'', ''p''] \<mapsto> Dir,
                     Path False [''docs'', ''.cache'', ''search'', ''p'', ''q.json''] \<mapsto> File ''p.q'',
                     Path False [''docs'', ''search.js''] \<mapsto> File ''p.q''],
            trace = [Compute (Path False [''docs'', ''p'', ''q.html'']),
                     Save (Path False [''docs'', ''p'', ''q.html'']), RenderContext,
                     Compute (Path False [''docs'', ''.cache'', ''search'', ''p'', ''q.json'']),
                     Save (Path False [''docs'', ''.cache'', ''search'', ''p'', ''q.json''])]\<rparr>
   \<and> html_entry docs \<lparr>fullname = ''p.q''\<rparr> = Path False [''docs'', ''p'', ''q.html'']
   \<and> json_entry docs (''p.q'', \<lparr>fullname = ''p.q''\<rparr>)
       = Path False [''docs'', ''.cache'', ''search'', ''p'', ''q.json'']
   \<and> index_html docs = Path False [''docs'', ''index.html'']
   \<and> search_js_path docs = Path False [''docs'', ''search.js'']
   \<and> html_index (demo_pdoc True ''idx'') [(''p.q'', \<lparr>fullname = ''p.q''\<rparr>)] = Inr ''idx''
   \<and> (\<exists>w4. run_to_search (demo_pdoc True ''idx'') [(''p.q'', \<lparr>fullname = ''p.q''\<rparr>)] docs
               empty_world = Inr (''p.q'', w4))"
proof -
  let ?pd = "demo_pdoc True ''idx''"
  let ?ms = "[(''p.q'', \<lparr>fullname = ''p.q''\<rparr>)]"
  let ?fs = "[Path False [''docs''] \<mapsto> Dir,
                     Path False [''docs'', ''p''] \<mapsto> Dir,
                     Path False [''docs'', ''p'', ''q.html''] \<mapsto> File ''<h1>p.q</h1>'',
                     Path False [''docs'', ''index.html''] \<mapsto> File ''idx'',
                     Path False [''docs'', ''.cache''] \<mapsto> Dir,
                     Path False [''docs'', ''.cache'', ''search''] \<mapsto> Dir,
                     Path False [''docs'', ''.cache'', ''search'', ''p''] \<mapsto> Dir,
                     Path False [''docs'', ''.cache'', ''search'', ''p'', ''q.json''] \<mapsto> File ''p.q'',
                     Path False [''docs'', ''search.js''] \<mapsto> File ''p.q'']"
  let ?w = "\<lparr>files = ?fs,
            trace = [Compute (Path False [''docs'', ''p'', ''q.html'']),
                     Save (Path False [''docs'', ''p'', ''q.html'']), RenderContext,
                     Compute (Path False [''docs'', ''.cache'', ''search'', ''p'', ''q.json'']),
                     Save (Path False [''docs'', ''.cache'', ''search'', ''p'', ''q.json''])]\<rparr>"
  let ?sj = "Path False [''docs'', ''search.js'']"
  have run: "render_modules ?pd ?ms docs empty_world = Inr ?w"
    by (simp add: render_eval cache_eval fs_eval)
  have e1: "html_entry docs \<lparr>fullname = ''p.q''\<rparr> = Path False [''docs'', ''p'', ''q.html'']"
    by (simp add: html_entry_def docs_def cache_eval fs_eval)
  have e2: "json_entry docs (''p.q'', \<lparr>fullname = ''p.q''\<rparr>)
       = Path False [''docs'', ''.cache'', ''search'', ''p'', ''q.json'']"
    by (simp add: json_entry_def search_root_def docs_def cache_eval fs_eval)
  have e3: "index_html docs = Path False [''docs'', ''index.html'']"
    by (simp add: index_html_eq docs_def)
  have e4: "search_js_path docs = ?sj"
    by (simp add: search_js_path_eq docs_def)
  have e5: "html_index ?pd ?ms = Inr ''idx''"
    by (simp add: demo_pdoc_def)
  have h: "lookup (files ?w) ?sj = Some (File ''p.q'')
        \<and> lookup (files empty_world) ?sj \<noteq> Some (File ''p.q'')"
    by (simp add: lookup_def empty_world_def)
  from render_modules_layout[of ?pd ?ms docs empty_world ?w] run
  have "\<forall>q s. lookup (files ?w) q = Some (File s) \<and> lookup (files empty_world) q \<noteq> Some (File s) \<longrightarrow>
           (\<exists>m \<in> snd ` set ?ms. q = html_entry docs m)
           \<or> (search_enabled ?pd \<and> (\<exists>item \<in> set ?ms. q = json_entry docs item))
           \<or> (q = index_html docs \<and> s \<noteq> [] \<and> html_index ?pd ?ms = Inr s)
           \<or> (q = search_js_path docs \<and> s \<noteq> [] \<and> search_enabled ?pd
               \<and> (\<exists>w4. run_to_search ?pd ?ms docs empty_world = Inr (s, w4)))"
    by blast
  with h have "(\<exists>m \<in> snd ` set ?ms. ?sj = html_entry docs m)
           \<or> (search_enabled ?pd \<and> (\<exists>item \<in> set ?ms. ?sj = json_entry docs item))
           \<or> (?sj = index_html docs \<and> ''p.q'' \<noteq> [] \<and> html_index ?pd ?ms = Inr ''p.q'')
           \<or> (?sj = search_js_path docs \<and> ''p.q'' \<noteq> [] \<and> search_enabled ?pd
               \<and> (\<exists>w4. run_to_search ?pd ?ms docs empty_world = Inr (''p.q'', w4)))"
    by blast
  then have "\<exists>w4. run_to_search ?pd ?ms docs empty_world = Inr (''p.q'', w4)"
    by (simp add: e1 e2 e3)
  with run e1 e2 e3 e4 e5 show ?thesis by simp
qed

theorem search_disabled_no_entries_witness:
  "\<not> search_enabled (demo_pdoc False ''idx'')
   \<and> search_index (demo_pdoc False ''idx'') [(''b'', \<lparr>fullname = ''b''\<rparr>)] (search_root docs)
        empty_world
      = Inr ([], \<lparr>files = [Path False [''docs''] \<mapsto> Dir,
                           Path False [''docs'', ''.cache''] \<mapsto> Dir,
                           Path False [''docs'', ''.cache'', ''search''] \<mapsto> Dir],
                  trace = [RenderContext]\<rparr>)
   \<and> render_modules (demo_pdoc False ''idx'') [(''b'', \<lparr>fullname = ''b''\<rparr>)] docs empty_world
      = Inr \<lparr>files = [Path False [''docs''] \<mapsto> Dir,
                     Path False [''docs'', ''b.html''] \<mapsto> File ''<h1>b</h1>'',
                     Path False [''docs'', ''index.html''] \<mapsto> File ''idx'',
                     Path False [''docs'', ''.cache''] \<mapsto> Dir,
                     Path False [''docs'', ''.cache'', ''search''] \<mapsto> Dir],
            trace = [Compute (Path False [''docs'', ''b.html'']),
                     Save (Path False [''docs'', ''b.html'']), RenderContext]\<rparr>
   \<and> lookup [Path False [''docs''] \<mapsto> Dir,
              Path False [''docs'', ''b.html''] \<mapsto> File ''<h1>b</h1>'',
              Path False [''docs'', ''index.html''] \<mapsto> File ''idx'',
              Path False [''docs'', ''.cache''] \<mapsto> Dir,
              Path False [''docs'', ''.cache'', ''search''] \<mapsto> Dir]
         (search_js_path docs) = None"
proof -
  let ?pd = "demo_pdoc False ''idx''"
  let ?ms = "[(''b'', \<lparr>fullname = ''b''\<rparr>)]"
  let ?fs = "[Path False [''docs''] \<mapsto> Dir,
                     Path False [''docs'', ''b.html''] \<mapsto> File ''<h1>b</h1>'',
                     Path False [''docs'', ''index.html''] \<mapsto> File ''idx'',
                     Path False [''docs'', ''.cache''] \<mapsto> Dir,
                     Path False [''docs'', ''.cache'', ''search''] \<mapsto> Dir]"
  let ?w = "\<lparr>files = ?fs,
            trace = [Compute (Path False [''docs'', ''b.html'']),
                     Save (Path False [''docs'', ''b.html'']), RenderContext]\<rparr>"
  have off: "\<not> search_enabled ?pd"
    by (simp add: demo_pdoc_def)
  have si: "search_index ?pd ?ms (search_root docs) empty_world
      = Inr ([], \<lparr>files = [Path False [''docs''] \<mapsto> Dir,
                           Path False [''docs'', ''.cache''] \<mapsto> Dir,
                           Path False [''docs'', ''.cache'', ''search''] \<mapsto> Dir],
                  trace = [RenderContext]\<rparr>)"
    by (simp add: render_eval cache_eval fs_eval)
  have run: "render_modules ?pd ?ms docs empty_world = Inr ?w"
    by (simp add: render_eval cache_eval fs_eval)
  from search_disabled_no_entries[of ?pd ?ms "search_root docs" empty_world docs] off run
  have "lookup (files ?w) (search_js_path docs) = lookup (files empty_world) (search_js_path docs)"
    by blast
  then have "lookup ?fs (search_js_path docs) = None"
    by (simp add: empty_world_def lookup_def search_js_path_eq docs_def)
  with off si run show ?thesis by simp
qed

theorem search_index_constructs_first_witness:
  "\<not> search_enabled (demo_pdoc False '''')
   \<and> search_index (demo_pdoc False '''') [(''c'', \<lparr>fullname = ''c''\<rparr>)] (search_root docs)
        empty_world
      = Inr ([], \<lparr>files = [Path False [''docs''] \<mapsto> Dir,
                           Path False [''docs'', ''.cache''] \<mapsto> Dir,
                           Path False [''docs'', ''.cache'', ''search''] \<mapsto> Dir],
                  trace = [RenderContext]\<rparr>)
   \<and> is_dir [Path False [''docs''] \<mapsto> Dir,
              Path False [''docs'', ''.cache''] \<mapsto> Dir,
              Path False [''docs'', ''.cache'', ''search''] \<mapsto> Dir] (search_root docs)"
proof -
  let ?pd = "demo_pdoc False ''''"
  let ?fs1 = "[Path False [''docs''] \<mapsto> Dir,
                           Path False [''docs'', ''.cache''] \<mapsto> Dir,
                           Path False [''docs'', ''.cache'', ''search''] \<mapsto> Dir]"
  have off: "\<not> search_enabled ?pd"
    by (simp add: demo_pdoc_def)
  have mk: "mkdir_parents (search_root docs) (files empty_world) = Inr ?fs1"
    by (simp add: render_eval fs_eval)
  from search_index_constructs_first[of ?pd "[(''c'', \<lparr>fullname = ''c''\<rparr>)]" "search_root docs"
         empty_world] off mk
  show ?thesis
    by (simp add: empty_world_def)
qed

end
